theory Spec2Isabelle
  imports Complex_Main "HOL-Library.Log_Nat"
begin

section \<open>JavaScript values\<close>

text \<open>
  The values a cell accessor can hand to the service: \<open>undefined\<close>, \<open>null\<close>, booleans,
  numbers and strings. The extraction never computes with the number of a cell; it reads
  its type and whether it is zero, so these numbers are carried as integers. Strings are carried as their
  bytes (UTF-8), so an ASCII character is one \<open>char\<close>.
\<close>

datatype jsval = JUndefined | JNull | JBool bool | JNum int | JStr string

fun typeof :: "jsval \<Rightarrow> string" where
  "typeof JUndefined = ''undefined''"
| "typeof JNull = ''object''"
| "typeof (JBool b) = ''boolean''"
| "typeof (JNum n) = ''number''"
| "typeof (JStr s) = ''string''"

text \<open>Truthiness, as \<open>if (v)\<close>, \<open>v && w\<close> and \<open>v || w\<close> read it.\<close>

fun truthy :: "jsval \<Rightarrow> bool" where
  "truthy JUndefined = False"
| "truthy JNull = False"
| "truthy (JBool b) = b"
| "truthy (JNum n) = (n \<noteq> 0)"
| "truthy (JStr s) = (s \<noteq> [])"

text \<open>\<open>a !== b\<close>: on these values strict equality is equality of type and value.\<close>

definition strict_neq :: "jsval \<Rightarrow> jsval \<Rightarrow> bool" where
  "strict_neq a b = (a \<noteq> b)"

datatype error = Error string | TypeError

section \<open>Regular expressions\<close>

text \<open>
  The fragment of JavaScript regular expressions the service uses: single characters,
  character ranges, sequence, alternation, greedy bounded repetition, greedy \<open>+\<close> and
  one capture group. A matcher state is the rest of the input and the text of capture
  group 1. \<open>rmatch\<close> lists the states after every way of matching, in the order the
  backtracking matcher tries them, so the head of the list is the match it reports.
\<close>

datatype rx =
    Chr char
  | Rng char char
  | Eps
  | Seq rx rx
  | Alt rx rx
  | Plus rx
  | Grp rx

type_synonym mstate = "string \<times> string option"

fun rmatch :: "rx \<Rightarrow> mstate \<Rightarrow> mstate list" where
  "rmatch (Chr a) (s, g) =
     (case s of [] \<Rightarrow> [] | c # t \<Rightarrow> if c = a then [(t, g)] else [])"
| "rmatch (Rng lo hi) (s, g) =
     (case s of [] \<Rightarrow> []
      | c # t \<Rightarrow> if (of_char lo :: nat) \<le> of_char c \<and> (of_char c :: nat) \<le> of_char hi
                 then [(t, g)] else [])"
| "rmatch Eps st = [st]"
| "rmatch (Seq r1 r2) st = concat (map (rmatch r2) (rmatch r1 st))"
| "rmatch (Alt r1 r2) st = rmatch r1 st @ rmatch r2 st"
| "rmatch (Plus r) (s, g) =
     concat (map (\<lambda>st'. rmatch (Plus r) st' @ [st'])
                 (filter (\<lambda>st'. length (fst st') < length s) (rmatch r (s, g))))"
| "rmatch (Grp r) (s, g) =
     map (\<lambda>st'. (fst st', Some (take (length s - length (fst st')) s))) (rmatch r (s, g))"

text \<open>\<open>r{n,m}\<close>, greedy: \<open>n\<close> copies of \<open>r\<close>, then up to \<open>m - n\<close> more, longest first.\<close>

fun rep :: "nat \<Rightarrow> nat \<Rightarrow> rx \<Rightarrow> rx" where
  "rep (Suc n) (Suc m) r = Seq r (rep n m r)"
| "rep 0 (Suc m) r = Alt (Seq r (rep 0 m r)) Eps"
| "rep n 0 r = Eps"

text \<open>A literal string, character by character.\<close>

fun lit :: "string \<Rightarrow> rx" where
  "lit [] = Eps"
| "lit (c # cs) = Seq (Chr c) (lit cs)"

text \<open>
  \<open>s.match(re)\<close> for a regular expression without flags: the first start position,
  from the left, at which the expression matches; \<open>None\<close> is JavaScript's \<open>null\<close>.
\<close>

fun rx_exec :: "rx \<Rightarrow> string \<Rightarrow> mstate option" where
  "rx_exec r [] = (case rmatch r ([], None) of [] \<Rightarrow> None | st # _ \<Rightarrow> Some st)"
| "rx_exec r (c # t) =
     (case rmatch r (c # t, None) of [] \<Rightarrow> rx_exec r t | st # _ \<Rightarrow> Some st)"

definition rx_test :: "rx \<Rightarrow> string \<Rightarrow> bool" where
  "rx_test r s = (rx_exec r s \<noteq> None)"

text \<open>\<open>s.includes(t)\<close>: \<open>t\<close> occurs in \<open>s\<close> at some position.\<close>

fun str_includes :: "string \<Rightarrow> string \<Rightarrow> bool" where
  "str_includes [] t = (t = [])"
| "str_includes (c # s) t = (take (length t) (c # s) = t \<or> str_includes s t)"

section \<open>Cells and type detection\<close>

text \<open>
  What the service reads of a cell: \<open>cell.value\<close>, \<open>cell.formattedValue\<close> and
  \<open>cell.hyperlink\<close>. Reading the hyperlink may throw; \<open>None\<close> is that case.
\<close>

record cell =
  cvalue :: jsval
  formattedValue :: jsval
  hyperlink :: "jsval option"

fun seqs :: "rx list \<Rightarrow> rx" where
  "seqs [] = Eps"
| "seqs [r] = r"
| "seqs (r # rs) = Seq r (seqs rs)"

fun alts :: "rx list \<Rightarrow> rx" where
  "alts [] = Eps"
| "alts [r] = r"
| "alts (r # rs) = Alt r (alts rs)"

definition digit :: rx where
  "digit = Rng CHR ''0'' CHR ''9''"

text \<open>
  The character class of currency signs: the dollar sign, and the pound, euro, yen,
  rupee, rouble and won signs as their UTF-8 bytes.
\<close>

definition currency_rx :: rx where
  "currency_rx = alts
     [Chr CHR ''$'',
      lit [CHR 0xC2, CHR 0xA3],
      lit [CHR 0xE2, CHR 0x82, CHR 0xAC],
      lit [CHR 0xC2, CHR 0xA5],
      lit [CHR 0xE2, CHR 0x82, CHR 0xB9],
      lit [CHR 0xE2, CHR 0x82, CHR 0xBD],
      lit [CHR 0xE2, CHR 0x82, CHR 0xA9]]"

text \<open>\<open>/\d{1,2}\/\d{1,2}\/\d{2,4}|\d{1,2}-\d{1,2}-\d{2,4}/\<close>\<close>

definition number_date_rx :: rx where
  "number_date_rx = alts
     [seqs [rep 1 2 digit, Chr CHR ''/'', rep 1 2 digit, Chr CHR ''/'', rep 2 4 digit],
      seqs [rep 1 2 digit, Chr CHR ''-'', rep 1 2 digit, Chr CHR ''-'', rep 2 4 digit]]"

text \<open>\<open>/\d{1,2}\/\d{1,2}\/\d{2,4}|\d{1,2}-\d{1,2}-\d{2,4}|\d{4}-\d{2}-\d{2}/\<close>\<close>

definition datePattern :: rx where
  "datePattern = alts
     [seqs [rep 1 2 digit, Chr CHR ''/'', rep 1 2 digit, Chr CHR ''/'', rep 2 4 digit],
      seqs [rep 1 2 digit, Chr CHR ''-'', rep 1 2 digit, Chr CHR ''-'', rep 2 4 digit],
      seqs [rep 4 4 digit, Chr CHR ''-'', rep 2 2 digit, Chr CHR ''-'', rep 2 2 digit]]"

text \<open>
  \<open>detectCellType\<close>. For a number the display string is \<open>cell.formattedValue || ''\<close>;
  calling \<open>includes\<close> on a value that is not a string is a \<open>TypeError\<close>.
\<close>

definition detectCellType :: "cell \<Rightarrow> error + string" where
  "detectCellType c =
     (if typeof (cvalue c) = ''boolean'' then Inr ''boolean''
      else if typeof (cvalue c) = ''number'' then
        (case (if truthy (formattedValue c) then formattedValue c else JStr []) of
           JStr formatted \<Rightarrow>
             if str_includes formatted ''%'' then Inr ''percentage''
             else if rx_exec currency_rx formatted \<noteq> None then Inr ''currency''
             else if rx_exec number_date_rx formatted \<noteq> None then Inr ''date''
             else Inr ''number''
         | _ \<Rightarrow> Inl TypeError)
      else (case cvalue c of
              JStr v \<Rightarrow> if rx_test datePattern v then Inr ''date'' else Inr ''string''
            | _ \<Rightarrow> Inr ''string''))"

section \<open>Effects\<close>

text \<open>
  What a method does besides returning: the calls to the logger and the two calls to
  the spreadsheet client that go to the network, \<open>doc.loadInfo()\<close> (with the
  spreadsheet id) and \<open>sheet.loadCells()\<close> (with the worksheet title), in the order
  they happen.
\<close>

datatype event =
    LogInfo string
  | LogError string error
  | LoadInfo string
  | LoadCells string

section \<open>Identifier resolution\<close>

text \<open>\<open>[a-zA-Z0-9-_]\<close>\<close>

definition idclass :: rx where
  "idclass = alts [Rng CHR ''a'' CHR ''z'', Rng CHR ''A'' CHR ''Z'', Rng CHR ''0'' CHR ''9'',
                   Chr CHR ''-'', Chr CHR ''_'']"

definition patterns :: "rx list" where
  "patterns =
     [Seq (lit ''/spreadsheets/d/'') (Grp (Plus idclass)),
      Seq (lit ''/d/'') (Grp (Plus idclass)),
      Seq (lit ''id='') (Grp (Plus idclass))]"

text \<open>
  The loop over the patterns: the first pattern with \<open>match && match[1]\<close> returns its
  group 1; \<open>None\<close> when the loop ends without returning.
\<close>

fun first_capture :: "rx list \<Rightarrow> string \<Rightarrow> string option" where
  "first_capture [] url = None"
| "first_capture (p # ps) url =
     (case rx_exec p url of
        Some (_, Some g) \<Rightarrow> if g \<noteq> [] then Some g else first_capture ps url
      | _ \<Rightarrow> first_capture ps url)"

definition extractSheetIdFromUrl_body :: "string \<Rightarrow> error + string" where
  "extractSheetIdFromUrl_body url =
     (case first_capture patterns url of
        Some g \<Rightarrow> Inr g
      | None \<Rightarrow> Inl (Error
          ''Could not extract sheet ID from URL. Please provide a valid Google Sheets URL.''))"

text \<open>
  The body runs inside \<open>try\<close>; the \<open>catch\<close> logs whatever was thrown and throws a new
  error.
\<close>

definition extractSheetIdFromUrl :: "string \<Rightarrow> (error + string) \<times> event list" where
  "extractSheetIdFromUrl url =
     (case extractSheetIdFromUrl_body url of
        Inr g \<Rightarrow> (Inr g, [])
      | Inl e \<Rightarrow>
          (Inl (Error
             ''Invalid Google Sheets URL format. Please provide a valid Google Sheets URL.''),
           [LogError ''Error extracting sheet ID from URL:'' e]))"

section \<open>Cell extraction\<close>

text \<open>
  A worksheet as the service reads it: its title, index and declared bounds, and the
  cell accessor \<open>getCell(row, col)\<close> with zero-based coordinates. The service calls it
  after \<open>loadCells()\<close> and within the bounds only, where it gives a cell.
\<close>

record sheet =
  title :: string
  index :: nat
  rowCount :: nat
  columnCount :: nat
  gridProperties :: jsval
  getCell :: "nat \<Rightarrow> nat \<Rightarrow> cell"

text \<open>
  A record of the output list. The optional properties \<open>fmt\<close> and \<open>hyperlink\<close> are
  \<open>None\<close> when the object does not carry them.
\<close>

record cellData =
  pos :: "nat \<times> nat"
  val :: jsval
  type :: string
  fmt :: "jsval option"
  hyperlink_out :: "jsval option"

record dimensions =
  rows :: nat
  columns :: nat

record sheet_metadata =
  md_title :: string
  md_dimensions :: dimensions

record extracted =
  metadata :: sheet_metadata
  cells :: "cellData list"

text \<open>The condition under which a cell is emitted.\<close>

definition has_content :: "cell \<Rightarrow> bool" where
  "has_content c \<longleftrightarrow>
     strict_neq (cvalue c) JNull \<and> strict_neq (cvalue c) JUndefined \<and>
     strict_neq (cvalue c) (JStr []) \<and>
     strict_neq (formattedValue c) JNull \<and> strict_neq (formattedValue c) JUndefined \<and>
     strict_neq (formattedValue c) (JStr [])"

text \<open>
  The object built for a cell at \<open>(row, col)\<close> that passed the condition, or the error
  thrown by \<open>detectCellType\<close>. An exception from reading the hyperlink is caught and
  ignored.
\<close>

definition cellData_of :: "nat \<Rightarrow> nat \<Rightarrow> cell \<Rightarrow> error + cellData" where
  "cellData_of row col c =
     (case detectCellType c of
        Inl e \<Rightarrow> Inl e
      | Inr t \<Rightarrow>
          (let d0 = \<lparr>pos = (row + 1, col + 1), val = cvalue c, type = t,
                     fmt = None, hyperlink_out = None\<rparr>;
               d1 = (if truthy (formattedValue c) \<and> strict_neq (formattedValue c) (cvalue c)
                     then d0\<lparr>fmt := Some (formattedValue c)\<rparr> else d0);
               d2 = (case hyperlink c of
                       None \<Rightarrow> d1
                     | Some h \<Rightarrow> if truthy h then d1\<lparr>hyperlink_out := Some h\<rparr> else d1)
           in Inr d2))"

text \<open>
  The body of the inner loop for the cell at \<open>(row, col)\<close>, with the list built so far:
  the list afterwards, or the error thrown.
\<close>

definition cell_body :: "nat \<Rightarrow> nat \<Rightarrow> cell \<Rightarrow> cellData list \<Rightarrow> error + cellData list" where
  "cell_body row col c acc =
     (if has_content c then
        (case cellData_of row col c of
           Inl e \<Rightarrow> Inl e
         | Inr d \<Rightarrow> Inr (acc @ [d]))
      else Inr acc)"

function col_loop :: "sheet \<Rightarrow> nat \<Rightarrow> nat \<Rightarrow> cellData list \<Rightarrow> error + cellData list" where
  "col_loop sh row col acc =
     (if col < columnCount sh then
        (case cell_body row col (getCell sh row col) acc of
           Inl e \<Rightarrow> Inl e
         | Inr acc' \<Rightarrow> col_loop sh row (col + 1) acc')
      else Inr acc)"
  by pat_completeness auto
termination
  by (relation "measure (\<lambda>(sh, row, col, acc). columnCount sh - col)") auto

function row_loop :: "sheet \<Rightarrow> nat \<Rightarrow> cellData list \<Rightarrow> error + cellData list" where
  "row_loop sh row acc =
     (if row < rowCount sh then
        (case col_loop sh row 0 acc of
           Inl e \<Rightarrow> Inl e
         | Inr acc' \<Rightarrow> row_loop sh (row + 1) acc')
      else Inr acc)"
  by pat_completeness auto
termination
  by (relation "measure (\<lambda>(sh, row, acc). rowCount sh - row)") auto

definition extractCellData :: "sheet \<Rightarrow> error + extracted" where
  "extractCellData sh =
     (case row_loop sh 0 [] of
        Inl e \<Rightarrow> Inl e
      | Inr cs \<Rightarrow>
          Inr \<lparr>metadata = \<lparr>md_title = title sh,
                             md_dimensions = \<lparr>rows = rowCount sh, columns = columnCount sh\<rparr>\<rparr>,
               cells = cs\<rparr>)"

section \<open>The spreadsheet client and the service\<close>

text \<open>
  A loaded spreadsheet as the service reads it after \<open>doc.loadInfo()\<close>:
  \<open>doc.sheetsByIndex[i]\<close> is the \<open>i\<close>-th element of the list of worksheets (\<open>undefined\<close>
  beyond its end).
\<close>

record doc =
  doc_title :: string
  doc_spreadsheetUrl :: string
  sheetCount :: nat
  sheetsByIndex :: "sheet list"
  createdTime :: jsval
  modifiedTime :: jsval
  lastModifyingUser :: jsval

text \<open>
  Modelled from the spec: the table \<open>doc.sheetsByTitle\<close> belongs to the spreadsheet
  client library, which is not part of the repository. The spec gives it as the lookup
  of a worksheet "by exact, case-sensitive name match", with worksheet names unique
  within a spreadsheet; \<open>None\<close> is \<open>undefined\<close>.
\<close>

definition sheetsByTitle :: "doc \<Rightarrow> string \<Rightarrow> sheet option" where
  "sheetsByTitle d n = find (\<lambda>sh. title sh = n) (sheetsByIndex d)"

record config =
  serviceAccountEmail :: string
  privateKey :: string
  projectId :: string

record jwt =
  email :: string
  key :: string
  scopes :: "string list"

text \<open>The service object: its configuration and the auth handle, \<open>None\<close> for \<open>null\<close>.\<close>

record service =
  config :: config
  auth :: "jwt option"

text \<open>
  The remote spreadsheet service: what \<open>loadInfo()\<close> gives for a spreadsheet id under
  an auth handle, the loaded document or the error it rejects with, and whether
  \<open>loadCells()\<close> of a worksheet resolves (\<open>None\<close>) or rejects with an error.
\<close>

record remote =
  loadInfo :: "jwt \<Rightarrow> string \<Rightarrow> error + doc"
  loadCells :: "sheet \<Rightarrow> error option"

definition new_service :: "config \<Rightarrow> service" where
  "new_service cfg = \<lparr>config = cfg, auth = None\<rparr>"

definition SCOPES :: "string list" where
  "SCOPES = [''https://www.googleapis.com/auth/spreadsheets'',
             ''https://www.googleapis.com/auth/drive.file'']"

definition initialize :: "service \<Rightarrow> service \<times> event list" where
  "initialize svc =
     (svc\<lparr>auth := Some \<lparr>email = serviceAccountEmail (config svc),
                          key = privateKey (config svc), scopes = SCOPES\<rparr>\<rparr>,
      [LogInfo ''Google authentication configured with JWT and scopes''])"

text \<open>Decimal digits of a number, for the template strings of the log messages.\<close>

function decimal :: "nat \<Rightarrow> string" where
  "decimal n =
     (if n < 10 then [char_of (48 + n)]
      else decimal (n div 10) @ [char_of (48 + n mod 10)])"
  by pat_completeness auto
termination
  by (relation "measure id") auto

subsection \<open>Summary\<close>

record sheetName =
  name :: string
  sn_index :: nat
  sn_rowCount :: nat
  sn_columnCount :: nat

record summary_metadata =
  sm_createdTime :: jsval
  sm_modifiedTime :: jsval
  sm_lastModifyingUser :: jsval

record summary =
  sum_id :: string
  sum_title :: string
  sum_url :: string
  sum_sheetCount :: nat
  sum_sheetNames :: "sheetName list"
  sum_metadata :: summary_metadata

text \<open>
  The loop over \<open>doc.sheetsByIndex\<close>. Reading \<open>sheet.title\<close> of \<open>undefined\<close> is a
  \<open>TypeError\<close>.
\<close>

function sheetNames_loop :: "doc \<Rightarrow> nat \<Rightarrow> sheetName list \<Rightarrow> error + sheetName list" where
  "sheetNames_loop d i acc =
     (if i < sheetCount d then
        (if i < length (sheetsByIndex d) then
           (let sh = sheetsByIndex d ! i in
            sheetNames_loop d (i + 1)
              (acc @ [\<lparr>name = title sh, sn_index = index sh, sn_rowCount = rowCount sh,
                        sn_columnCount = columnCount sh\<rparr>]))
         else Inl TypeError)
      else Inr acc)"
  by pat_completeness auto
termination
  by (relation "measure (\<lambda>(d, i, acc). sheetCount d - i)") auto

text \<open>The \<open>try\<close> block of \<open>getSpreadsheetSummary\<close>: what it returns or throws, and its effects.\<close>

definition getSpreadsheetSummary_try ::
  "service \<Rightarrow> remote \<Rightarrow> string \<Rightarrow> (error + summary) \<times> event list" where
  "getSpreadsheetSummary_try svc rem url =
     (case auth svc of
        None \<Rightarrow> (Inl (Error ''Service not initialized. Call initialize() first.''), [])
      | Some a \<Rightarrow>
          (let t1 = [LogInfo ''Retrieving spreadsheet summary...''] in
           case extractSheetIdFromUrl url of
             (Inl e, ev) \<Rightarrow> (Inl e, t1 @ ev)
           | (Inr sheetId, ev) \<Rightarrow>
               (let t2 = t1 @ ev @ [LogInfo ''Extracted sheet ID from URL'', LoadInfo sheetId] in
                case loadInfo rem a sheetId of
                  Inl e \<Rightarrow> (Inl e, t2)
                | Inr d \<Rightarrow>
                    (let t3 = t2 @ [LogInfo (''Spreadsheet loaded with '' @
                                             decimal (sheetCount d) @ '' sheets'')] in
                     case sheetNames_loop d 0 [] of
                       Inl e \<Rightarrow> (Inl e, t3)
                     | Inr sheetNames \<Rightarrow>
                         (Inr \<lparr>sum_id = sheetId, sum_title = doc_title d,
                               sum_url = doc_spreadsheetUrl d, sum_sheetCount = sheetCount d,
                               sum_sheetNames = sheetNames,
                               sum_metadata =
                                 \<lparr>sm_createdTime = createdTime d,
                                  sm_modifiedTime = modifiedTime d,
                                  sm_lastModifyingUser = lastModifyingUser d\<rparr>\<rparr>,
                          t3 @ [LogInfo ''Successfully retrieved spreadsheet summary''])))))"

text \<open>
  \<open>getSpreadsheetSummary\<close>: the result or the error thrown to the caller, the service
  object afterwards, and the effects in order. The \<open>catch\<close> logs what was thrown and
  throws a new error.
\<close>

definition getSpreadsheetSummary ::
  "service \<Rightarrow> remote \<Rightarrow> string \<Rightarrow> (error + summary) \<times> service \<times> event list" where
  "getSpreadsheetSummary svc rem url =
     (case getSpreadsheetSummary_try svc rem url of
        (Inr r, ev) \<Rightarrow> (Inr r, svc, ev)
      | (Inl e, ev) \<Rightarrow>
          (Inl (Error
             ''Failed to retrieve spreadsheet summary. Please check the URL and your permissions.''),
           svc, ev @ [LogError ''Error retrieving spreadsheet summary:'' e]))"

subsection \<open>Sheet data\<close>

record sheetData_metadata =
  dm_title :: string
  dm_dimensions :: dimensions
  dm_createdTime :: jsval
  dm_modifiedTime :: jsval
  dm_lastModifyingUser :: jsval
  dm_sheetIndex :: nat
  dm_gridProperties :: jsval

record sheetData =
  spreadsheetId :: string
  spreadsheetTitle :: string
  spreadsheetUrl :: string
  sd_metadata :: sheetData_metadata
  sd_cells :: "cellData list"

text \<open>The \<open>try\<close> block of \<open>getSheetData\<close>.\<close>

definition getSheetData_try ::
  "service \<Rightarrow> remote \<Rightarrow> string \<Rightarrow> string \<Rightarrow> (error + sheetData) \<times> event list" where
  "getSheetData_try svc rem url sheetName =
     (case auth svc of
        None \<Rightarrow> (Inl (Error ''Service not initialized. Call initialize() first.''), [])
      | Some a \<Rightarrow>
          (let t1 = [LogInfo ''Retrieving specific sheet data...''] in
           case extractSheetIdFromUrl url of
             (Inl e, ev) \<Rightarrow> (Inl e, t1 @ ev)
           | (Inr sheetId, ev) \<Rightarrow>
               (let t2 = t1 @ ev @ [LogInfo ''Extracted sheet ID from URL'', LoadInfo sheetId] in
                case loadInfo rem a sheetId of
                  Inl e \<Rightarrow> (Inl e, t2)
                | Inr d \<Rightarrow>
                    (let t3 = t2 @ [LogInfo (''Spreadsheet loaded with '' @
                                             decimal (sheetCount d) @ '' sheets'')] in
                     case sheetsByTitle d sheetName of
                       None \<Rightarrow>
                         (Inl (Error
                            ''Specified sheet not found. Please check the sheet name and try again.''),
                          t3)
                     | Some sh \<Rightarrow>
                         (let t4 = t3 @ [LoadCells (title sh)] in
                          case loadCells rem sh of
                            Some e \<Rightarrow> (Inl e, t4)
                          | None \<Rightarrow>
                              (case extractCellData sh of
                                 Inl e \<Rightarrow> (Inl e, t4)
                               | Inr extractedData \<Rightarrow>
                                   (Inr \<lparr>spreadsheetId = sheetId,
                                         spreadsheetTitle = doc_title d,
                                         spreadsheetUrl = doc_spreadsheetUrl d,
                                         sd_metadata =
                                           \<lparr>dm_title = md_title (metadata extractedData),
                                            dm_dimensions = md_dimensions (metadata extractedData),
                                            dm_createdTime = createdTime d,
                                            dm_modifiedTime = modifiedTime d,
                                            dm_lastModifyingUser = lastModifyingUser d,
                                            dm_sheetIndex = index sh,
                                            dm_gridProperties = gridProperties sh\<rparr>,
                                         sd_cells = cells extractedData\<rparr>,
                                    t4 @ [LogInfo ''Successfully retrieved specific sheet data''])))))))"

definition getSheetData ::
  "service \<Rightarrow> remote \<Rightarrow> string \<Rightarrow> string \<Rightarrow> (error + sheetData) \<times> service \<times> event list" where
  "getSheetData svc rem url sheetName =
     (case getSheetData_try svc rem url sheetName of
        (Inr r, ev) \<Rightarrow> (Inr r, svc, ev)
      | (Inl e, ev) \<Rightarrow>
          (Inl (Error
             ''Failed to retrieve sheet data. Please check the sheet name and your permissions.''),
           svc, ev @ [LogError ''Error retrieving sheet data:'' e]))"

subsection \<open>Column letters\<close>

text \<open>
  A JavaScript number is an IEEE double. A finite one is carried as the rational number
  it denotes, and an arithmetic operation gives the double nearest to the exact result,
  ties to the even significand. \<open>RN\<close> is that rounding for 53-bit significands:
  \<open>ilog2 q\<close> is the exponent of \<open>q\<close>, the integer \<open>e\<close> with \<open>2^e \<le> q < 2^(e+1)\<close>.
  Overflow and subnormal numbers are left out: from a finite \<open>colNum\<close> the loop below
  only forms \<open>colNum - 1\<close>, quotients by 26 and sums with 65, which stay in range.
\<close>

definition ilog2 :: "rat \<Rightarrow> int" where
  "ilog2 q =
     (let (a, b) = quotient_of q; d = bitlen a - bitlen b
      in if 2 powi d \<le> q then d else d - 1)"

definition round_half_even :: "rat \<Rightarrow> int" where
  "round_half_even t =
     (let f = \<lfloor>t\<rfloor>; d = t - of_int f
      in if d < 1 / 2 then f else if 1 / 2 < d then f + 1
         else if even f then f else f + 1)"

definition RN :: "rat \<Rightarrow> rat" where
  "RN q =
     (if q = 0 then 0
      else let u = 2 powi (ilog2 \<bar>q\<bar> - 52)
           in sgn q * of_int (round_half_even (\<bar>q\<bar> / u)) * u)"

text \<open>
  \<open>a - b\<close>, \<open>a + b\<close> and \<open>a / b\<close> round; \<open>a % b\<close> is exact, with the quotient truncated
  towards zero; \<open>Math.floor\<close> is exact.
\<close>

definition js_sub :: "rat \<Rightarrow> rat \<Rightarrow> rat" where
  "js_sub a b = RN (a - b)"

definition js_add :: "rat \<Rightarrow> rat \<Rightarrow> rat" where
  "js_add a b = RN (a + b)"

definition js_div :: "rat \<Rightarrow> rat \<Rightarrow> rat" where
  "js_div a b = RN (a / b)"

definition js_mod :: "rat \<Rightarrow> rat \<Rightarrow> rat" where
  "js_mod a b =
     a - b * of_int (if 0 \<le> a / b then \<lfloor>a / b\<rfloor> else \<lceil>a / b\<rceil>)"

definition Math_floor :: "rat \<Rightarrow> rat" where
  "Math_floor a = of_int \<lfloor>a\<rfloor>"

text \<open>
  \<open>String.fromCharCode(v)\<close>: the character whose code is \<open>v\<close> without its fraction. In
  the loop \<open>v\<close> lies between 64 and 91, where a code is one ASCII character.
\<close>

definition fromCharCode :: "rat \<Rightarrow> char" where
  "fromCharCode v = char_of \<lfloor>v\<rfloor>"

text \<open>
  \<open>columnToLetter\<close>: the loop with its two variables, \<open>colNum\<close> and \<open>result\<close>; \<open>None\<close>
  would be a loop that does not end.
\<close>

partial_function (option) columnToLetter_loop :: "rat \<Rightarrow> string \<Rightarrow> string option" where
  "columnToLetter_loop colNum result =
     (if colNum > 0 then
        (let c = js_sub colNum 1
         in columnToLetter_loop (Math_floor (js_div c 26))
              (fromCharCode (js_add 65 (js_mod c 26)) # result))
      else Some result)"

definition columnToLetter :: "rat \<Rightarrow> string option" where
  "columnToLetter colNum = columnToLetter_loop colNum []"

text \<open>The same loop on integers in exact arithmetic, for comparison.\<close>

function base26_loop :: "int \<Rightarrow> string \<Rightarrow> string" where
  "base26_loop n result =
     (if n > 0 then base26_loop ((n - 1) div 26) (char_of (65 + (n - 1) mod 26) # result)
      else result)"
  by pat_completeness auto
termination
  by (relation "measure (\<lambda>(n, result). nat n)") auto

definition base26 :: "int \<Rightarrow> string" where
  "base26 n = base26_loop n []"

text \<open>
  The value of a string of capital letters as a bijective base-26 numeral:
  \<open>A\<close> is 1, \<open>Z\<close> is 26, and each further letter to the left counts 26 times more.
\<close>

definition letter_value :: "char \<Rightarrow> int" where
  "letter_value c = of_char c - 64"

definition bijective26 :: "string \<Rightarrow> int" where
  "bijective26 s = foldl (\<lambda>acc c. acc * 26 + letter_value c) 0 s"

definition upper_letters :: string where
  "upper_letters = ''ABCDEFGHIJKLMNOPQRSTUVWXYZ''"

section \<open>Notions used in the properties\<close>

text \<open>The worksheets whose cell grid a run asked to load: the \<open>loadCells\<close> calls of a trace.\<close>

fun loadCells_calls :: "event list \<Rightarrow> string list" where
  "loadCells_calls [] = []"
| "loadCells_calls (LoadCells t # ev) = t # loadCells_calls ev"
| "loadCells_calls (_ # ev) = loadCells_calls ev"

text \<open>What the scan adds to the list at one position: nothing or one record.\<close>

definition emit :: "sheet \<Rightarrow> nat \<Rightarrow> nat \<Rightarrow> cellData list" where
  "emit sh r c =
     (if has_content (getCell sh r c) then
        (case cellData_of r c (getCell sh r c) of Inr d \<Rightarrow> [d] | Inl e \<Rightarrow> [])
      else [])"

definition emit_row :: "sheet \<Rightarrow> nat \<Rightarrow> cellData list" where
  "emit_row sh r = concat (map (emit sh r) [0..<columnCount sh])"

text \<open>Row-major order on positions.\<close>

definition pos_less :: "nat \<times> nat \<Rightarrow> nat \<times> nat \<Rightarrow> bool" where
  "pos_less p q \<longleftrightarrow> fst p < fst q \<or> (fst p = fst q \<and> snd p < snd q)"

text \<open>Example data for the concrete instances below.\<close>

definition ex_cell :: "jsval \<Rightarrow> jsval \<Rightarrow> cell" where
  "ex_cell v f = \<lparr>cvalue = v, formattedValue = f, hyperlink = Some JUndefined\<rparr>"

definition ex_grid :: "nat \<Rightarrow> nat \<Rightarrow> cell" where
  "ex_grid r c =
     (if r = 0 \<and> c = 0 then ex_cell (JNum 5) (JStr ''5'')
      else if r = 0 \<and> c = 1 then ex_cell (JNum 5) (JStr ''5.00'')
      else if r = 0 \<and> c = 2 then ex_cell JNull (JStr ''x'')
      else if r = 1 \<and> c = 0 then ex_cell (JStr ''5'') (JStr ''5'')
      else if r = 1 \<and> c = 1 then ex_cell (JNum 0) (JStr [])
      else \<lparr>cvalue = JStr ''hello'', formattedValue = JStr ''hello'',
             hyperlink = Some (JStr ''https://example.com'')\<rparr>)"

definition ex_sheet :: sheet where
  "ex_sheet = \<lparr>title = ''Sheet1'', index = 0, rowCount = 2, columnCount = 3,
               gridProperties = JNull, getCell = ex_grid\<rparr>"

definition ex_doc :: doc where
  "ex_doc = \<lparr>doc_title = ''Budget'',
             doc_spreadsheetUrl = ''https://docs.google.com/spreadsheets/d/abc'',
             sheetCount = 1, sheetsByIndex = [ex_sheet],
             createdTime = JUndefined, modifiedTime = JUndefined,
             lastModifyingUser = JUndefined\<rparr>"

definition ex_remote :: remote where
  "ex_remote = \<lparr>loadInfo = (\<lambda>a i. if i = ''abc'' then Inr ex_doc else Inl (Error ''Not Found'')),
                loadCells = (\<lambda>sh. None)\<rparr>"

definition ex_config :: config where
  "ex_config = \<lparr>serviceAccountEmail = ''svc@example.com'', privateKey = ''key'',
                projectId = ''p''\<rparr>"

definition ex_url :: string where
  "ex_url = ''https://docs.google.com/spreadsheets/d/abc/edit#gid=0''"

definition ex_extracted :: extracted where
  "ex_extracted =
     \<lparr>metadata = \<lparr>md_title = ''Sheet1'', md_dimensions = \<lparr>rows = 2, columns = 3\<rparr>\<rparr>,
      cells =
        [\<lparr>pos = (1, 1), val = JNum 5, type = ''number'', fmt = Some (JStr ''5''),
          hyperlink_out = None\<rparr>,
         \<lparr>pos = (1, 2), val = JNum 5, type = ''number'', fmt = Some (JStr ''5.00''),
          hyperlink_out = None\<rparr>,
         \<lparr>pos = (2, 1), val = JStr ''5'', type = ''string'', fmt = None,
          hyperlink_out = None\<rparr>,
         \<lparr>pos = (2, 3), val = JStr ''hello'', type = ''string'', fmt = None,
          hyperlink_out = Some (JStr ''https://example.com'')\<rparr>]\<rparr>"

text \<open>
  The string form of a value, \<open>String(v)\<close>, which the specification compares the
  formatted value with. The code does not compute it.
\<close>

fun string_form :: "jsval \<Rightarrow> string" where
  "string_form JUndefined = ''undefined''"
| "string_form JNull = ''null''"
| "string_form (JBool b) = (if b then ''true'' else ''false'')"
| "string_form (JNum n) = (if n < 0 then ''-'' @ decimal (nat (- n)) else decimal (nat n))"
| "string_form (JStr s) = s"

text \<open>
  The characters of the class \<open>[a-zA-Z0-9-_]\<close>, by character code: letters, digits,
  hyphen and underscore.
\<close>

definition in_range :: "char \<Rightarrow> char \<Rightarrow> char \<Rightarrow> bool" where
  "in_range lo hi c \<longleftrightarrow> (of_char lo :: nat) \<le> of_char c \<and> (of_char c :: nat) \<le> of_char hi"

definition idchar :: "char \<Rightarrow> bool" where
  "idchar c \<longleftrightarrow>
     in_range CHR ''a'' CHR ''z'' c \<or> in_range CHR ''A'' CHR ''Z'' c \<or>
     in_range CHR ''0'' CHR ''9'' c \<or> c = CHR ''-'' \<or> c = CHR ''_''"

text \<open>The shape of the three patterns: a literal text, then group 1 with \<open>[a-zA-Z0-9-_]+\<close>.\<close>

definition id_pattern :: "string \<Rightarrow> rx" where
  "id_pattern L = Seq (lit L) (Grp (Plus idclass))"

text \<open>
  What a pattern with literal \<open>L\<close> gives when tried at the start of \<open>s\<close>: the rest of the
  input and group 1, the longest run of identifier characters after \<open>L\<close>.
\<close>

definition capture_at :: "string \<Rightarrow> string \<Rightarrow> mstate option" where
  "capture_at L s =
     (if take (length L) s = L \<and> takeWhile idchar (drop (length L) s) \<noteq> []
      then Some (dropWhile idchar (drop (length L) s),
                 Some (takeWhile idchar (drop (length L) s)))
      else None)"

text \<open>
  A URL \<open>pre @ L @ X @ rest\<close> of the shape with literal \<open>L\<close> that embeds the identifier
  \<open>X\<close>: \<open>X\<close> is a non-empty run of identifier characters that ends where \<open>rest\<close>
  begins, the occurrence of \<open>L\<close> in front of it is the first one in the URL, and the
  literals of the shapes tried earlier (\<open>higher\<close>) do not occur in the URL.
\<close>

definition embeds :: "string list \<Rightarrow> string \<Rightarrow> string \<Rightarrow> string \<Rightarrow> string \<Rightarrow> bool" where
  "embeds higher L pre X rest \<longleftrightarrow>
     X \<noteq> [] \<and> list_all idchar X \<and>
     (case rest of [] \<Rightarrow> True | c # _ \<Rightarrow> \<not> idchar c) \<and>
     \<not> str_includes (pre @ butlast L) L \<and>
     list_all (\<lambda>H. \<not> str_includes (pre @ L @ X @ rest) H) higher"

text \<open>
  The formatted values the client library hands out: a display string, or \<open>null\<close> or
  \<open>undefined\<close> when there is none.
\<close>

fun display_value :: "jsval \<Rightarrow> bool" where
  "display_value (JStr s) = True"
| "display_value JNull = True"
| "display_value JUndefined = True"
| "display_value _ = False"


text \<open>A grid all of whose cells within the bounds have such a formatted value.\<close>

definition display_grid :: "sheet \<Rightarrow> bool" where
  "display_grid sh =
     list_all (\<lambda>r. list_all (\<lambda>c. display_value (formattedValue (getCell sh r c)))
                       [0..<columnCount sh])
              [0..<rowCount sh]"

declare rmatch.simps(6) [simp del]
declare rx_exec.simps [simp del]
declare decimal.simps [simp del]
declare col_loop.simps [simp del]
declare row_loop.simps [simp del]
declare sheetNames_loop.simps [simp del]
declare base26_loop.simps [simp del]
declare columnToLetter_loop.simps [code]

section \<open>Properties\<close>

subsection \<open>Regular expressions\<close>

text \<open>A literal matches where the input starts with it.\<close>

lemma rmatch_lit:
  "rmatch (lit L) (s, g) = (if take (length L) s = L then [(drop (length L) s, g)] else [])"
proof (induction L arbitrary: s)
  case Nil
  show ?case by simp
next
  case (Cons c cs)
  show ?case
  proof (cases s)
    case Nil
    then show ?thesis by simp
  next
    case (Cons a t)
    with Cons.IH[of t] show ?thesis by auto
  qed
qed

subsection \<open>Column letters\<close>

lemma letters_table: "list_all (\<lambda>k. char_of (65 + k) \<in> set upper_letters) [0..25]"
  by code_simp

lemma letter_upper:
  assumes "0 \<le> k" "k < 26"
  shows "char_of (65 + k :: int) \<in> set upper_letters"
proof -
  have "k \<in> set [0..25]" using assms by simp
  with letters_table show ?thesis
    unfolding list_all_iff by blast
qed

lemma letter_value_char: "0 \<le> k \<Longrightarrow> k < 26 \<Longrightarrow> letter_value (char_of (65 + k)) = k + 1"
  by (simp add: letter_value_def)

lemma base26_step:
  "0 < n \<Longrightarrow> base26_loop n acc =
     base26_loop ((n - 1) div 26) (char_of (65 + (n - 1) mod 26) # acc)"
  by (subst base26_loop.simps) simp

lemma base26_stop: "n \<le> 0 \<Longrightarrow> base26_loop n acc = acc"
  by (subst base26_loop.simps) simp

text \<open>The loop only ever prepends to the accumulator it was given.\<close>

lemma base26_append: "base26_loop n acc = base26_loop n [] @ acc"
proof (induction "nat n" arbitrary: n acc rule: less_induct)
  case less
  show ?case
  proof (cases "0 < n")
    case True
    let ?q = "(n - 1) div 26" and ?c = "char_of (65 + (n - 1) mod 26) :: char"
    have lt: "nat ?q < nat n" using True by simp
    have "base26_loop n acc = base26_loop ?q (?c # acc)"
      using True by (rule base26_step)
    also have "\<dots> = base26_loop ?q [] @ (?c # acc)"
      using less[OF lt] .
    also have "\<dots> = (base26_loop ?q [] @ [?c]) @ acc" by simp
    also have "base26_loop ?q [] @ [?c] = base26_loop ?q [?c]"
      using less[OF lt, of "[?c]"] by simp
    also have "base26_loop ?q [?c] = base26_loop n []"
      using True by (simp add: base26_step)
    finally show ?thesis .
  next
    case False
    then show ?thesis by (simp add: base26_stop)
  qed
qed

lemma base26_pos:
  "0 < n \<Longrightarrow> base26 n =
     base26 ((n - 1) div 26) @ [char_of (65 + (n - 1) mod 26)]"
  unfolding base26_def by (subst base26_step, assumption, subst base26_append) simp

lemma base26_nonpos: "n \<le> 0 \<Longrightarrow> base26 n = []"
  unfolding base26_def by (simp add: base26_stop)

lemma base26_props:
  "0 \<le> n \<Longrightarrow> set (base26 n) \<subseteq> set upper_letters \<and> bijective26 (base26 n) = n"
proof (induction "nat n" arbitrary: n rule: less_induct)
  case less
  show ?case
  proof (cases "0 < n")
    case True
    let ?q = "(n - 1) div 26" and ?k = "(n - 1) mod 26"
    have lt: "nat ?q < nat n" and q0: "0 \<le> ?q" using True by simp_all
    have k: "0 \<le> ?k" "?k < 26" by simp_all
    from less(1)[OF lt q0]
    have ih: "set (base26 ?q) \<subseteq> set upper_letters" "bijective26 (base26 ?q) = ?q"
      by simp_all
    have "bijective26 (base26 n) = ?q * 26 + (?k + 1)"
      using ih(2) letter_value_char[OF k]
      by (simp add: base26_pos[OF True] bijective26_def)
    also have "\<dots> = n" by (simp add: algebra_simps)
    finally have "bijective26 (base26 n) = n" .
    moreover have "set (base26 n) \<subseteq> set upper_letters"
      using ih(1) letter_upper[OF k] by (simp add: base26_pos[OF True])
    ultimately show ?thesis by simp
  next
    case False
    with less(2) have "n = 0" by simp
    then show ?thesis by (simp add: base26_nonpos bijective26_def)
  qed
qed

text \<open>Rounding to a double: the exponent, the error of the significand, exact cases.\<close>

lemma pow2_bitlen:
  assumes "0 < (a::int)"
  shows "(2::rat) powi (bitlen a - 1) \<le> of_int a" "of_int a < (2::rat) powi (bitlen a)"
proof -
  from bitlen_bounds[OF assms] have b: "2 ^ nat (bitlen a - 1) \<le> a" "a < 2 ^ nat (bitlen a)"
    by simp_all
  have p: "1 \<le> bitlen a" using assms by (simp add: bitlen_alt_def)
  have "(2::rat) powi (bitlen a - 1) = 2 ^ nat (bitlen a - 1)"
    using p by (simp add: power_int_def)
  also have "\<dots> = of_int (2 ^ nat (bitlen a - 1))" by simp
  also have "\<dots> \<le> of_int a" using b(1) by (simp only: of_int_le_iff)
  finally show "(2::rat) powi (bitlen a - 1) \<le> of_int a" .
  have "of_int a < (of_int (2 ^ nat (bitlen a)) :: rat)" using b(2) by (simp only: of_int_less_iff)
  also have "\<dots> = 2 powi (bitlen a)" using p by (simp add: power_int_def)
  finally show "of_int a < (2::rat) powi (bitlen a)" .
qed

lemma ilog2_le:
  assumes "0 < q"
  shows "2 powi (ilog2 q) \<le> q"
proof -
  obtain a b where ab: "quotient_of q = (a, b)" by (cases "quotient_of q")
  then have b: "0 < b" and q: "q = of_int a / of_int b"
    by (simp_all add: quotient_of_denom_pos quotient_of_div)
  with assms have a: "0 < a" by (simp add: zero_less_divide_iff)
  let ?d = "bitlen a - bitlen b"
  show ?thesis
  proof (cases "2 powi ?d \<le> q")
    case True
    with ab show ?thesis by (simp add: ilog2_def)
  next
    case False
    have "(2::rat) powi (?d - 1) = 2 powi (bitlen a - 1) / 2 powi (bitlen b)"
      by (simp add: power_int_diff)
    also have "\<dots> \<le> of_int a / 2 powi (bitlen b)"
      using pow2_bitlen(1)[OF a] by (simp add: divide_right_mono)
    also have "\<dots> \<le> of_int a / of_int b"
      using pow2_bitlen(2)[OF b] a b by (simp add: frac_le)
    finally have "(2::rat) powi (?d - 1) \<le> q" using q by simp
    with False ab show ?thesis by (simp add: ilog2_def)
  qed
qed

lemma ilog2_less:
  assumes "0 < q" "q < 2 ^ n"
  shows "ilog2 q < int n"
proof -
  have "(2::rat) powi (ilog2 q) < 2 powi (int n)"
    using ilog2_le[OF assms(1)] assms(2) by simp
  then show ?thesis
    by (rule power_int_le_imp_less_exp[rotated]) simp_all
qed

lemma round_half_even_bounds:
  "of_int (round_half_even t) \<le> t + 1 / 2" "of_int \<lfloor>t\<rfloor> \<le> (of_int (round_half_even t) :: rat)"
  unfolding round_half_even_def Let_def by (auto simp: field_simps) linarith+

lemma round_half_even_int [simp]: "round_half_even (of_int i) = i"
  by (simp add: round_half_even_def)

lemma pow2_pos [simp]: "0 < (2::rat) powi e"
  by (simp add: zero_less_power_int)

lemma pow2_neg_exp:
  "e \<le> 52 \<Longrightarrow> (2::rat) powi (e - 52) = 1 / 2 ^ nat (52 - e)"
  by (simp add: power_int_def field_simps)

lemma RN_nonneg: "0 \<le> q \<Longrightarrow> 0 \<le> RN q"
proof -
  assume q: "0 \<le> q"
  have "0 \<le> round_half_even (\<bar>q\<bar> / u)" if "0 < u" for u
  proof -
    have "(0::int) \<le> \<lfloor>\<bar>q\<bar> / u\<rfloor>" using that by simp
    moreover have "\<lfloor>\<bar>q\<bar> / u\<rfloor> \<le> round_half_even (\<bar>q\<bar> / u)"
      using round_half_even_bounds(2)[of "\<bar>q\<bar> / u"] by simp
    ultimately show ?thesis by linarith
  qed
  then show ?thesis using q by (simp add: RN_def Let_def sgn_if)
qed

lemma RN_minus: "RN (- q) = - RN q"
  by (simp add: RN_def Let_def sgn_if)

lemma RN_nonpos: "q \<le> 0 \<Longrightarrow> RN q \<le> 0"
  using RN_nonneg[of "- q"] by (simp add: RN_minus)

lemma RN_upper:
  assumes "0 \<le> q"
  shows "RN q \<le> 2 * q"
proof (cases "q = 0")
  case True
  then show ?thesis by (simp add: RN_def)
next
  case False
  with assms have q: "0 < q" by simp
  let ?u = "(2::rat) powi (ilog2 q - 52)"
  have u: "0 < ?u" by simp
  have "?u \<le> 2 powi (ilog2 q)"
    by (rule power_int_increasing) simp_all
  also have "\<dots> \<le> q" by (rule ilog2_le[OF q])
  finally have uq: "?u \<le> q" .
  have "RN q = of_int (round_half_even (q / ?u)) * ?u"
    using q by (simp add: RN_def Let_def)
  also have "\<dots> \<le> (q / ?u + 1 / 2) * ?u"
    using round_half_even_bounds(1)[of "q / ?u"] u by (simp add: mult_right_mono)
  also have "\<dots> = q + ?u / 2" using u by (simp add: field_simps)
  also have "\<dots> \<le> 2 * q" using uq q by linarith
  finally show ?thesis .
qed

lemma RN_exact_int:
  assumes "0 \<le> m" "m < 2 ^ 53"
  shows "RN (of_int m) = of_int m"
proof (cases "m = 0")
  case True
  then show ?thesis by (simp add: RN_def)
next
  case False
  with assms have m: "0 < m" by simp
  let ?q = "of_int m :: rat"
  have q: "0 < ?q" using m by simp
  have "?q < 2 ^ 53" using assms(2) by (metis of_int_less_iff of_int_numeral of_int_power)
  from ilog2_less[OF q this] have e: "ilog2 ?q \<le> 52" by simp
  let ?k = "nat (52 - ilog2 ?q)"
  have u: "(2::rat) powi (ilog2 ?q - 52) = 1 / 2 ^ ?k" by (rule pow2_neg_exp[OF e])
  have "?q / (1 / 2 ^ ?k) = of_int (m * 2 ^ ?k)" by simp
  then have "round_half_even (?q / (1 / 2 ^ ?k)) = m * 2 ^ ?k"
    by (simp only: round_half_even_int)
  then show ?thesis using q u by (simp add: RN_def Let_def)
qed

lemma floor_RN_div26:
  assumes "0 \<le> m" "m < 2 ^ 53"
  shows "\<lfloor>RN (of_int m / 26)\<rfloor> = m div 26"
proof (cases "m = 0")
  case True
  then show ?thesis by (simp add: RN_def)
next
  case False
  with assms have m: "0 < m" by simp
  define q :: rat where "q = of_int m / 26"
  have q: "0 < q" using m by (simp add: q_def)
  have "(of_int m :: rat) < 2 ^ 53"
    using assms(2) by (metis of_int_less_iff of_int_numeral of_int_power)
  then have "q < 2 ^ 49" by (simp add: q_def)
  from ilog2_less[OF q this] have e: "ilog2 q \<le> 48" by simp
  define k where "k = nat (52 - ilog2 q)"
  have k: "4 \<le> k" using e by (simp add: k_def)
  have u: "(2::rat) powi (ilog2 q - 52) = 1 / 2 ^ k"
    unfolding k_def using e by (intro pow2_neg_exp) simp
  define P :: rat where "P = 2 ^ k"
  have "(2::rat) ^ 4 \<le> 2 ^ k" using k by (intro power_increasing) simp_all
  then have P: "16 \<le> P" by (simp add: P_def)
  define s where "s = round_half_even (q * P)"
  have rn: "RN q = of_int s / P"
    using q u by (simp add: RN_def Let_def s_def P_def)
  define a r where "a = m div 26" and "r = m mod 26"
  have "m = 26 * a + r" by (simp add: a_def r_def)
  then have "(of_int m :: rat) = of_int (26 * a + r)" by simp
  then have mr: "(of_int m :: rat) = 26 * of_int a + of_int r" by simp
  have r: "0 \<le> r" "r \<le> 25" by (simp_all add: r_def)
  have t: "q * P = of_int a * P + of_int r * P / 26"
    unfolding q_def mr by (simp add: field_simps)
  have lo: "of_int a * P \<le> of_int s"
  proof -
    have "0 \<le> of_int r * P / 26" using r(1) P by simp
    then have "of_int (a * 2 ^ k) \<le> q * P"
      using t by (simp add: P_def)
    then have "a * 2 ^ k \<le> \<lfloor>q * P\<rfloor>" by (simp only: le_floor_iff)
    moreover have "\<lfloor>q * P\<rfloor> \<le> s"
      using round_half_even_bounds(2)[of "q * P"] by (simp add: s_def)
    ultimately have "a * 2 ^ k \<le> s" by linarith
    then have "(of_int (a * 2 ^ k) :: rat) \<le> of_int s" by (simp only: of_int_le_iff)
    then show ?thesis by (simp add: P_def)
  qed
  have hi: "of_int s < (of_int a + 1) * P"
  proof -
    have "of_int r * P \<le> 25 * P"
      using r(2) P by (intro mult_right_mono) simp_all
    then have "q * P \<le> of_int a * P + 25 * P / 26" using t by simp
    moreover have "of_int s \<le> q * P + 1 / 2"
      using round_half_even_bounds(1)[of "q * P"] by (simp add: s_def)
    ultimately have "of_int s \<le> of_int a * P + 25 * P / 26 + 1 / 2" by linarith
    also have "\<dots> < (of_int a + 1) * P" using P by (simp add: field_simps)
    finally show ?thesis .
  qed
  have Ppos: "0 < P" using P by simp
  have "of_int a \<le> of_int s / P" using lo Ppos by (simp add: field_simps)
  moreover have "of_int s / P < of_int a + 1" using hi Ppos by (simp add: field_simps)
  ultimately have "\<lfloor>of_int s / P\<rfloor> = a" by (intro floor_unique) simp_all
  with rn show ?thesis by (simp add: q_def a_def)
qed

lemma loop_decreases:
  assumes "0 < colNum"
  shows "\<lfloor>RN (RN (colNum - 1) / 26)\<rfloor> < \<lceil>colNum\<rceil>"
proof (cases "colNum \<le> 1")
  case True
  then have "RN (colNum - 1) \<le> 0" by (intro RN_nonpos) simp
  then have "RN (RN (colNum - 1) / 26) \<le> 0" by (intro RN_nonpos) simp
  then have "\<lfloor>RN (RN (colNum - 1) / 26)\<rfloor> \<le> 0" by (simp add: floor_le_iff)
  moreover have "0 < \<lceil>colNum\<rceil>" using assms by simp
  ultimately show ?thesis by linarith
next
  case False
  then have c: "0 \<le> colNum - 1" by simp
  let ?c = "RN (colNum - 1)"
  have c0: "0 \<le> ?c" and c2: "?c \<le> 2 * (colNum - 1)"
    using RN_nonneg[OF c] RN_upper[OF c] by simp_all
  have "RN (?c / 26) \<le> 2 * (?c / 26)" using c0 by (intro RN_upper) simp
  also have "\<dots> < colNum" using c2 c by simp
  finally have "RN (?c / 26) < colNum" .
  then have "of_int \<lfloor>RN (?c / 26)\<rfloor> < colNum"
    using of_int_floor_le[of "RN (?c / 26)"] by linarith
  also have "colNum \<le> of_int \<lceil>colNum\<rceil>" by simp
  finally show ?thesis by (simp only: of_int_less_iff)
qed

lemma js_mod_int: "0 \<le> c \<Longrightarrow> js_mod (of_int c) 26 = of_int (c mod 26)"
proof -
  assume c: "0 \<le> c"
  have "\<lfloor>(of_int c :: rat) / 26\<rfloor> = c div 26"
    using floor_divide_of_int_eq[of c 26, where ?'a = rat] by simp
  moreover have "(of_int (c mod 26) :: rat) = of_int c - 26 * of_int (c div 26)"
    by (simp add: minus_mult_div_eq_mod[symmetric] del: minus_mult_div_eq_mod)
  ultimately show ?thesis using c by (simp add: js_mod_def)
qed

lemma double_step:
  assumes "1 \<le> n" "n \<le> 2 ^ 53"
  shows "js_sub (of_int n) 1 = of_int (n - 1)"
    and "Math_floor (js_div (js_sub (of_int n) 1) 26) = of_int ((n - 1) div 26)"
    and "fromCharCode (js_add 65 (js_mod (js_sub (of_int n) 1) 26)) =
           char_of (65 + (n - 1) mod 26)"
proof -
  have r: "0 \<le> n - 1" "n - 1 < 2 ^ 53" using assms by simp_all
  show s: "js_sub (of_int n) 1 = of_int (n - 1)"
    using RN_exact_int[OF r] by (simp add: js_sub_def)
  show "Math_floor (js_div (js_sub (of_int n) 1) 26) = of_int ((n - 1) div 26)"
    using floor_RN_div26[OF r] by (simp add: s Math_floor_def js_div_def)
  have "0 \<le> 65 + (n - 1) mod 26" "65 + (n - 1) mod 26 < 2 ^ 53" by simp_all
  from RN_exact_int[OF this]
  have "js_add 65 (of_int ((n - 1) mod 26)) = of_int (65 + (n - 1) mod 26)"
    by (simp add: js_add_def)
  then have "fromCharCode (js_add 65 (js_mod (js_sub (of_int n) 1) 26)) =
           fromCharCode (of_int (65 + (n - 1) mod 26))"
    by (simp only: s js_mod_int[OF r(1)])
  also have "\<dots> = char_of (65 + (n - 1) mod 26)"
    by (simp only: fromCharCode_def floor_of_int)
  finally show "fromCharCode (js_add 65 (js_mod (js_sub (of_int n) 1) 26)) =
           char_of (65 + (n - 1) mod 26)" .
qed

lemma loop_returns: "\<exists>s. columnToLetter_loop colNum acc = Some s"
proof (induction "nat \<lceil>colNum\<rceil>" arbitrary: colNum acc rule: less_induct)
  case less
  show ?case
  proof (cases "0 < colNum")
    case True
    let ?next = "Math_floor (js_div (js_sub colNum 1) 26)"
    have "\<lceil>?next\<rceil> < \<lceil>colNum\<rceil>"
      using loop_decreases[OF True] by (simp add: Math_floor_def js_div_def js_sub_def)
    moreover have "0 < \<lceil>colNum\<rceil>" using True by simp
    ultimately have "nat \<lceil>?next\<rceil> < nat \<lceil>colNum\<rceil>" by linarith
    from less[OF this] True show ?thesis
      by (subst columnToLetter_loop.simps) (simp add: Let_def)
  next
    case False
    then show ?thesis by (subst columnToLetter_loop.simps) simp
  qed
qed

text \<open>Up to \<open>2^53\<close> the loop on doubles is the loop on integers.\<close>

lemma double_loop_exact:
  "n \<le> 2 ^ 53 \<Longrightarrow> columnToLetter_loop (of_int n) acc = Some (base26_loop n acc)"
proof (induction "nat n" arbitrary: n acc rule: less_induct)
  case less
  show ?case
  proof (cases "0 < n")
    case True
    then have n: "1 \<le> n" by simp
    let ?q = "(n - 1) div 26"
    have lt: "nat ?q < nat n" and q: "?q \<le> 2 ^ 53" using True less.prems by simp_all
    have "columnToLetter_loop (of_int n) acc =
            columnToLetter_loop (of_int ?q) (char_of (65 + (n - 1) mod 26) # acc)"
      using True double_step[OF n less.prems]
      by (subst columnToLetter_loop.simps) (simp add: Let_def)
    also have "\<dots> = Some (base26_loop ?q (char_of (65 + (n - 1) mod 26) # acc))"
      using less.hyps[OF lt q] .
    also have "\<dots> = Some (base26_loop n acc)"
      using True by (simp add: base26_step)
    finally show ?thesis .
  next
    case False
    then show ?thesis
      by (subst columnToLetter_loop.simps) (simp add: base26_stop)
  qed
qed

text \<open>
  C10 as stated fails above \<open>2^53\<close>: 9007199254740994 is an integer and a double, the
  decrement \<open>colNum--\<close> rounds it to \<open>2^53\<close>, and the letters returned are those of
  9007199254740993.
\<close>

theorem columnToLetter_counterexample:
  "RN 9007199254740994 = 9007199254740994 \<and>
   js_sub 9007199254740994 1 = 9007199254740992 \<and>
   columnToLetter 9007199254740994 = Some ''BKTXHSOGHKKG'' \<and>
   bijective26 ''BKTXHSOGHKKG'' = 9007199254740993"
  by code_simp

text \<open>
  C10, amended. \<open>columnToLetter\<close> returns for every number. For every integer \<open>colNum\<close>
  from 1 to \<open>2^53\<close> the next value of the loop variable is \<open>(colNum - 1) div 26\<close>,
  non-negative and strictly smaller, and the result is a non-empty string of the
  letters A to Z whose value as a bijective base-26 numeral is \<open>colNum\<close>; 1 gives \<open>A\<close>,
  26 gives \<open>Z\<close> and 27 gives \<open>AA\<close>.
\<close>

theorem columnToLetter_total:
  "(\<exists>s. columnToLetter c = Some s) \<and>
   (1 \<le> colNum \<and> colNum \<le> 2 ^ 53 \<longrightarrow>
      Math_floor (js_div (js_sub (of_int colNum) 1) 26) = of_int ((colNum - 1) div 26) \<and>
      0 \<le> (colNum - 1) div 26 \<and> (colNum - 1) div 26 < colNum \<and>
      (\<exists>s. columnToLetter (of_int colNum) = Some s \<and> s \<noteq> [] \<and>
           set s \<subseteq> set upper_letters \<and> bijective26 s = colNum)) \<and>
   columnToLetter 1 = Some ''A'' \<and> columnToLetter 26 = Some ''Z'' \<and>
   columnToLetter 27 = Some ''AA''"
proof -
  have ex: "columnToLetter 1 = Some ''A'' \<and> columnToLetter 26 = Some ''Z'' \<and>
            columnToLetter 27 = Some ''AA''"
    by code_simp
  have ret: "\<exists>s. columnToLetter c = Some s"
    unfolding columnToLetter_def by (rule loop_returns)
  have rng: "Math_floor (js_div (js_sub (of_int colNum) 1) 26) = of_int ((colNum - 1) div 26) \<and>
      0 \<le> (colNum - 1) div 26 \<and> (colNum - 1) div 26 < colNum \<and>
      (\<exists>s. columnToLetter (of_int colNum) = Some s \<and> s \<noteq> [] \<and>
           set s \<subseteq> set upper_letters \<and> bijective26 s = colNum)"
    if a: "1 \<le> colNum" and b: "colNum \<le> 2 ^ 53"
  proof -
    have q0: "0 \<le> (colNum - 1) div 26" using a by simp
    have "nat ((colNum - 1) div 26) < nat colNum" using a by simp
    with q0 a have q1: "(colNum - 1) div 26 < colNum" by simp
    have e: "columnToLetter (of_int colNum) = Some (base26 colNum)"
      unfolding columnToLetter_def base26_def using b by (rule double_loop_exact)
    have "base26 colNum \<noteq> []" using a by (simp add: base26_pos)
    moreover have "set (base26 colNum) \<subseteq> set upper_letters \<and> bijective26 (base26 colNum) = colNum"
      using a by (intro base26_props) simp
    ultimately show ?thesis
      using double_step(2)[OF a b] q0 q1 e by simp
  qed
  from ex ret rng show ?thesis by blast
qed

theorem columnToLetter_total_witness:
  "(1::int) \<le> 703 \<and> (703::int) \<le> 2 ^ 53 \<and> columnToLetter 703 = Some ''AAA'' \<and>
   bijective26 ''AAA'' = 703"
proof -
  have a: "columnToLetter 703 = Some ''AAA''" by code_simp
  have "\<exists>s. columnToLetter (of_int 703) = Some s \<and> s \<noteq> [] \<and>
           set s \<subseteq> set upper_letters \<and> bijective26 s = 703"
    using columnToLetter_total[of _ 703] by simp
  with a show ?thesis by simp
qed

subsection \<open>Type detection\<close>












subsection \<open>Effects of the two tools\<close>

lemma loadCells_calls_append:
  "loadCells_calls (a @ b) = loadCells_calls a @ loadCells_calls b"
  by (induction a rule: loadCells_calls.induct) simp_all

lemma extractSheetIdFromUrl_no_loadCells:
  "loadCells_calls (snd (extractSheetIdFromUrl url)) = []"
  by (simp add: extractSheetIdFromUrl_def split: sum.splits)

text \<open>
  C8. Whatever the service state, the remote spreadsheet and the URL, a run of
  \<open>getSpreadsheetSummary\<close> makes no \<open>loadCells\<close> call: the list of such calls in its
  trace is empty on every path.
\<close>

theorem summary_never_loads_cells:
  "loadCells_calls (snd (snd (getSpreadsheetSummary svc rem url))) = []"
proof -
  have "loadCells_calls (snd (getSpreadsheetSummary_try svc rem url)) = []"
    using extractSheetIdFromUrl_no_loadCells[of url]
    by (auto simp: getSpreadsheetSummary_try_def Let_def loadCells_calls_append
             split: option.splits prod.splits sum.splits)
  then show ?thesis
    by (auto simp: getSpreadsheetSummary_def loadCells_calls_append split: prod.splits sum.splits)
qed

text \<open>
  C9. With the auth handle \<open>null\<close>, \<open>getSpreadsheetSummary\<close> and \<open>getSheetData\<close> each
  throw their generic retrieval error; the only effect is the log entry of the
  "not initialized" error (no URL is resolved, no \<open>loadInfo\<close> or \<open>loadCells\<close> call is
  made), and the service object is unchanged.
\<close>

theorem uninitialized_guard:
  "auth svc = None \<Longrightarrow>
     getSpreadsheetSummary svc rem url =
       (Inl (Error
          ''Failed to retrieve spreadsheet summary. Please check the URL and your permissions.''),
        svc,
        [LogError ''Error retrieving spreadsheet summary:''
           (Error ''Service not initialized. Call initialize() first.'')]) \<and>
     getSheetData svc rem url sheetName =
       (Inl (Error
          ''Failed to retrieve sheet data. Please check the sheet name and your permissions.''),
        svc,
        [LogError ''Error retrieving sheet data:''
           (Error ''Service not initialized. Call initialize() first.'')])"
  by (simp add: getSpreadsheetSummary_def getSpreadsheetSummary_try_def
                getSheetData_def getSheetData_try_def)

theorem uninitialized_guard_witness:
  "auth (new_service ex_config) = None \<and>
   fst (getSpreadsheetSummary (new_service ex_config) ex_remote ex_url) =
     Inl (Error
       ''Failed to retrieve spreadsheet summary. Please check the URL and your permissions.'') \<and>
   fst (getSheetData (new_service ex_config) ex_remote ex_url ''Sheet1'') =
     Inl (Error
       ''Failed to retrieve sheet data. Please check the sheet name and your permissions.'') \<and>
   fst (snd (getSheetData (new_service ex_config) ex_remote ex_url ''Sheet1'')) =
     new_service ex_config"
proof -
  have a: "auth (new_service ex_config) = None" by (simp add: new_service_def)
  show ?thesis
    using a uninitialized_guard[OF a, of ex_remote ex_url "''Sheet1''"] by simp
qed

subsection \<open>Resolution failure\<close>

text \<open>
  C5 as stated fails: \<open>not a url\<close> matches none of the three patterns, and the error
  thrown to the caller is the one of the \<open>catch\<close> block, not the "could not extract"
  error thrown inside the \<open>try\<close> block.
\<close>

theorem resolution_failure_counterexample:
  "list_all (\<lambda>p. rx_exec p ''not a url'' = None) patterns \<and>
   fst (extractSheetIdFromUrl ''not a url'') =
     Inl (Error ''Invalid Google Sheets URL format. Please provide a valid Google Sheets URL.'') \<and>
   fst (extractSheetIdFromUrl ''not a url'') \<noteq>
     Inl (Error ''Could not extract sheet ID from URL. Please provide a valid Google Sheets URL.'')"
  by code_simp

lemma first_capture_none:
  "list_all (\<lambda>p. rx_exec p url = None) ps \<Longrightarrow> first_capture ps url = None"
  by (induction ps) simp_all

text \<open>
  C5, amended. For every string that matches none of the three patterns,
  \<open>extractSheetIdFromUrl\<close> throws the "invalid URL format" error of its \<open>catch\<close> block;
  the "could not extract" error is logged and not thrown to the caller.
\<close>

theorem resolution_failure:
  "list_all (\<lambda>p. rx_exec p url = None) patterns \<Longrightarrow>
   extractSheetIdFromUrl url =
     (Inl (Error ''Invalid Google Sheets URL format. Please provide a valid Google Sheets URL.''),
      [LogError ''Error extracting sheet ID from URL:''
         (Error
            ''Could not extract sheet ID from URL. Please provide a valid Google Sheets URL.'')])"
  by (simp add: extractSheetIdFromUrl_def extractSheetIdFromUrl_body_def first_capture_none)

theorem resolution_failure_witness:
  "list_all (\<lambda>p. rx_exec p ''not a url'' = None) patterns \<and>
   extractSheetIdFromUrl ''not a url'' =
     (Inl (Error ''Invalid Google Sheets URL format. Please provide a valid Google Sheets URL.''),
      [LogError ''Error extracting sheet ID from URL:''
         (Error
            ''Could not extract sheet ID from URL. Please provide a valid Google Sheets URL.'')])"
proof -
  have a: "list_all (\<lambda>p. rx_exec p ''not a url'' = None) patterns" by code_simp
  show ?thesis using a resolution_failure[OF a] by simp
qed

subsection \<open>Worksheet not found\<close>

lemma ex_url_id: "extractSheetIdFromUrl ex_url = (Inr ''abc'', [])"
  by code_simp

lemma ex_service_auth:
  "auth (fst (initialize (new_service ex_config))) =
     Some \<lparr>email = ''svc@example.com'', key = ''key'', scopes = SCOPES\<rparr>"
  by (simp add: initialize_def new_service_def ex_config_def)

lemma ex_remote_loadInfo: "loadInfo ex_remote a ''abc'' = Inr ex_doc"
  by (simp add: ex_remote_def)

text \<open>
  C7 as stated fails: for a name that no worksheet has, the error thrown to the caller
  is the generic one of the \<open>catch\<close> block, not the "sheet not found" error.
\<close>

theorem worksheet_not_found_counterexample:
  "''NoSuchSheet'' \<notin> set (map title (sheetsByIndex ex_doc)) \<and>
   fst (getSheetData (fst (initialize (new_service ex_config))) ex_remote ex_url ''NoSuchSheet'') =
     Inl (Error
       ''Failed to retrieve sheet data. Please check the sheet name and your permissions.'') \<and>
   fst (getSheetData (fst (initialize (new_service ex_config))) ex_remote ex_url ''NoSuchSheet'') \<noteq>
     Inl (Error ''Specified sheet not found. Please check the sheet name and try again.'')"
  by code_simp

lemma sheetsByTitle_none:
  "sheetName \<notin> set (map title (sheetsByIndex d)) \<Longrightarrow> sheetsByTitle d sheetName = None"
  by (auto simp: sheetsByTitle_def find_None_iff)

text \<open>
  C7, amended. With the service initialized, a URL that resolves and a spreadsheet that
  loads, a worksheet name equal to no worksheet title (equality of strings, so case
  matters) makes \<open>getSheetData\<close> throw its generic retrieval error; the "sheet not
  found" error is logged, and no \<open>loadCells\<close> call has been made.
\<close>

theorem worksheet_not_found:
  assumes "auth svc = Some a"
      and "extractSheetIdFromUrl url = (Inr sheetId, [])"
      and "loadInfo rem a sheetId = Inr d"
      and "sheetName \<notin> set (map title (sheetsByIndex d))"
  shows "getSheetData svc rem url sheetName =
           (Inl (Error
              ''Failed to retrieve sheet data. Please check the sheet name and your permissions.''),
            svc,
            [LogInfo ''Retrieving specific sheet data...'',
             LogInfo ''Extracted sheet ID from URL'',
             LoadInfo sheetId,
             LogInfo (''Spreadsheet loaded with '' @ decimal (sheetCount d) @ '' sheets''),
             LogError ''Error retrieving sheet data:''
               (Error ''Specified sheet not found. Please check the sheet name and try again.'')]) \<and>
         loadCells_calls (snd (snd (getSheetData svc rem url sheetName))) = []"
  using assms sheetsByTitle_none[OF assms(4)]
  by (simp add: getSheetData_def getSheetData_try_def Let_def)

theorem worksheet_not_found_witness:
  "auth (fst (initialize (new_service ex_config))) =
     Some \<lparr>email = ''svc@example.com'', key = ''key'', scopes = SCOPES\<rparr> \<and>
   extractSheetIdFromUrl ex_url = (Inr ''abc'', []) \<and>
   loadInfo ex_remote \<lparr>email = ''svc@example.com'', key = ''key'', scopes = SCOPES\<rparr> ''abc''
     = Inr ex_doc \<and>
   ''sheet1'' \<notin> set (map title (sheetsByIndex ex_doc)) \<and>
   fst (getSheetData (fst (initialize (new_service ex_config))) ex_remote ex_url ''sheet1'') =
     Inl (Error
       ''Failed to retrieve sheet data. Please check the sheet name and your permissions.'') \<and>
   loadCells_calls
     (snd (snd (getSheetData (fst (initialize (new_service ex_config))) ex_remote ex_url
        ''sheet1''))) = []"
proof -
  have n: "''sheet1'' \<notin> set (map title (sheetsByIndex ex_doc))"
    by (simp add: ex_doc_def ex_sheet_def)
  show ?thesis
    using worksheet_not_found[OF ex_service_auth ex_url_id ex_remote_loadInfo n]
      ex_service_auth ex_url_id ex_remote_loadInfo n
    by simp
qed

text \<open>For comparison: with the worksheet's own name the grid is loaded, once.\<close>

lemma sheet_data_loads_cells:
  "loadCells_calls
     (snd (snd (getSheetData (fst (initialize (new_service ex_config))) ex_remote ex_url
        ''Sheet1''))) = [''Sheet1'']"
  by code_simp

subsection \<open>Cell extraction\<close>

text \<open>
  The two loops, unfolded once, and what they return: the list they were given followed
  by what the scan adds at each position, in scan order.
\<close>

lemma col_loop_step:
  "col < columnCount sh \<Longrightarrow>
   col_loop sh row col acc =
     (case cell_body row col (getCell sh row col) acc of
        Inl e \<Rightarrow> Inl e | Inr acc' \<Rightarrow> col_loop sh row (col + 1) acc')"
  by (subst col_loop.simps) simp

lemma col_loop_stop: "\<not> col < columnCount sh \<Longrightarrow> col_loop sh row col acc = Inr acc"
  by (subst col_loop.simps) simp

lemma row_loop_step:
  "row < rowCount sh \<Longrightarrow>
   row_loop sh row acc =
     (case col_loop sh row 0 acc of
        Inl e \<Rightarrow> Inl e | Inr acc' \<Rightarrow> row_loop sh (row + 1) acc')"
  by (subst row_loop.simps) simp

lemma row_loop_stop: "\<not> row < rowCount sh \<Longrightarrow> row_loop sh row acc = Inr acc"
  by (subst row_loop.simps) simp

lemma cell_body_Inr:
  "cell_body row col (getCell sh row col) acc = Inr acc' \<Longrightarrow>
   acc' = acc @ emit sh row col \<and>
   (has_content (getCell sh row col) \<longrightarrow> (\<exists>d. cellData_of row col (getCell sh row col) = Inr d))"
  by (auto simp: cell_body_def emit_def split: if_splits sum.splits)

lemma col_loop_Inr:
  "col_loop sh row col acc = Inr out \<Longrightarrow>
   out = acc @ concat (map (emit sh row) [col..<columnCount sh]) \<and>
   (\<forall>c. col \<le> c \<and> c < columnCount sh \<and> has_content (getCell sh row c) \<longrightarrow>
        (\<exists>d. cellData_of row c (getCell sh row c) = Inr d))"
proof (induction sh row col acc rule: col_loop.induct)
  case (1 sh row col acc)
  show ?case
  proof (cases "col < columnCount sh")
    case True
    from "1.prems" True obtain acc' where
      b: "cell_body row col (getCell sh row col) acc = Inr acc'" and
      l: "col_loop sh row (col + 1) acc' = Inr out"
      by (auto simp: col_loop_step split: sum.splits)
    note ih = "1.IH"[OF True b l]
    note cb = cell_body_Inr[OF b]
    have "out = acc @ concat (map (emit sh row) [col..<columnCount sh])"
      using ih cb True by (simp add: upt_conv_Cons)
    moreover have "\<exists>d. cellData_of row c (getCell sh row c) = Inr d"
      if "col \<le> c \<and> c < columnCount sh \<and> has_content (getCell sh row c)" for c
    proof (cases "c = col")
      case True
      with that cb show ?thesis by simp
    next
      case False
      with that have "col + 1 \<le> c" by simp
      with that ih show ?thesis by blast
    qed
    ultimately show ?thesis by blast
  next
    case False
    with "1.prems" show ?thesis by (auto simp: col_loop_stop)
  qed
qed


lemma row_loop_Inr:
  "row_loop sh row acc = Inr out \<Longrightarrow>
   out = acc @ concat (map (emit_row sh) [row..<rowCount sh]) \<and>
   (\<forall>r c. row \<le> r \<and> r < rowCount sh \<and> c < columnCount sh \<and> has_content (getCell sh r c) \<longrightarrow>
        (\<exists>d. cellData_of r c (getCell sh r c) = Inr d))"
proof (induction sh row acc rule: row_loop.induct)
  case (1 sh row acc)
  show ?case
  proof (cases "row < rowCount sh")
    case True
    from "1.prems" True obtain acc' where
      b: "col_loop sh row 0 acc = Inr acc'" and
      l: "row_loop sh (row + 1) acc' = Inr out"
      by (auto simp: row_loop_step split: sum.splits)
    note ih = "1.IH"[OF True b l]
    note cb = col_loop_Inr[OF b]
    have "acc' = acc @ emit_row sh row"
      using cb by (simp add: emit_row_def)
    then have "out = acc @ concat (map (emit_row sh) [row..<rowCount sh])"
      using ih True by (simp add: upt_conv_Cons)
    moreover have "\<exists>d. cellData_of r c (getCell sh r c) = Inr d"
      if "row \<le> r \<and> r < rowCount sh \<and> c < columnCount sh \<and> has_content (getCell sh r c)" for r c
    proof (cases "r = row")
      case True
      with that cb show ?thesis by simp
    next
      case False
      with that have "row + 1 \<le> r" by simp
      with that ih show ?thesis by blast
    qed
    ultimately show ?thesis by blast
  next
    case False
    with "1.prems" show ?thesis by (auto simp: row_loop_stop)
  qed
qed

lemma extractCellData_cells:
  assumes "extractCellData sh = Inr out"
  shows "cells out = concat (map (emit_row sh) [0..<rowCount sh])"
    and "r < rowCount sh \<Longrightarrow> c < columnCount sh \<Longrightarrow> has_content (getCell sh r c) \<Longrightarrow>
         \<exists>d. cellData_of r c (getCell sh r c) = Inr d"
proof -
  from assms obtain cs where rl: "row_loop sh 0 [] = Inr cs" and o: "cells out = cs"
    by (auto simp: extractCellData_def split: sum.splits)
  from row_loop_Inr[OF rl] o show "cells out = concat (map (emit_row sh) [0..<rowCount sh])"
    by simp
  from row_loop_Inr[OF rl]
  show "r < rowCount sh \<Longrightarrow> c < columnCount sh \<Longrightarrow> has_content (getCell sh r c) \<Longrightarrow>
         \<exists>d. cellData_of r c (getCell sh r c) = Inr d"
    by blast
qed

text \<open>
  The extraction returns for every grid whose formatted values are display strings or
  absent; a formatted value of another type makes \<open>detectCellType\<close> throw on a number.
\<close>

lemma detectCellType_returns:
  "display_value (formattedValue x) \<Longrightarrow> \<exists>t. detectCellType x = Inr t"
  by (cases "formattedValue x") (auto simp: detectCellType_def split: jsval.splits)

lemma cellData_of_returns:
  "display_value (formattedValue x) \<Longrightarrow> \<exists>d. cellData_of r c x = Inr d"
  using detectCellType_returns[of x] by (auto simp: cellData_of_def Let_def)

lemma cell_body_returns:
  "display_value (formattedValue x) \<Longrightarrow> \<exists>acc'. cell_body r c x acc = Inr acc'"
  using cellData_of_returns[of x r c] by (auto simp: cell_body_def)

lemma col_loop_returns:
  "(\<And>c. c < columnCount sh \<Longrightarrow> display_value (formattedValue (getCell sh row c))) \<Longrightarrow>
   \<exists>out. col_loop sh row col acc = Inr out"
proof (induction sh row col acc rule: col_loop.induct)
  case (1 sh row col acc)
  show ?case
  proof (cases "col < columnCount sh")
    case True
    from cell_body_returns[OF "1.prems"[OF True]] obtain acc' where
      b: "cell_body row col (getCell sh row col) acc = Inr acc'" by blast
    from "1.IH"[OF True b "1.prems"] obtain out where
      "col_loop sh row (col + 1) acc' = Inr out" by blast
    with True b show ?thesis by (simp add: col_loop_step)
  next
    case False
    then show ?thesis by (simp add: col_loop_stop)
  qed
qed

lemma row_loop_returns:
  "(\<And>r c. r < rowCount sh \<Longrightarrow> c < columnCount sh \<Longrightarrow>
           display_value (formattedValue (getCell sh r c))) \<Longrightarrow>
   \<exists>out. row_loop sh row acc = Inr out"
proof (induction sh row acc rule: row_loop.induct)
  case (1 sh row acc)
  show ?case
  proof (cases "row < rowCount sh")
    case True
    from col_loop_returns[of sh row 0 acc] "1.prems"[OF True] obtain acc' where
      b: "col_loop sh row 0 acc = Inr acc'" by blast
    from "1.IH"[OF True b "1.prems"] obtain out where
      "row_loop sh (row + 1) acc' = Inr out" by blast
    with True b show ?thesis by (simp add: row_loop_step)
  next
    case False
    then show ?thesis by (simp add: row_loop_stop)
  qed
qed

lemma extractCellData_returns:
  assumes "\<And>r c. r < rowCount sh \<Longrightarrow> c < columnCount sh \<Longrightarrow>
             display_value (formattedValue (getCell sh r c))"
  shows "\<exists>out. extractCellData sh = Inr out"
proof -
  from row_loop_returns[of sh 0 "[]"] assms obtain cs where "row_loop sh 0 [] = Inr cs"
    by blast
  then show ?thesis by (simp add: extractCellData_def)
qed

lemma extractCellData_throws:
  "extractCellData \<lparr>title = ''S'', index = 0, rowCount = 1, columnCount = 1,
      gridProperties = JNull, getCell = (\<lambda>r c. ex_cell (JNum 1) (JNum 1))\<rparr> = Inl TypeError"
  by code_simp

lemma cellData_of_props:
  assumes "cellData_of r c x = Inr d"
  shows "pos d = (r + 1, c + 1)"
    and "val d = cvalue x"
    and "detectCellType x = Inr (type d)"
    and "fmt d = (if truthy (formattedValue x) \<and> formattedValue x \<noteq> cvalue x
                  then Some (formattedValue x) else None)"
    and "hyperlink_out d =
           (case hyperlink x of None \<Rightarrow> None | Some h \<Rightarrow> if truthy h then Some h else None)"
  using assms
  by (auto simp: cellData_of_def Let_def strict_neq_def split: sum.splits option.splits if_splits)

lemma emit_cases:
  "emit sh r c = [] \<or>
   (\<exists>d. emit sh r c = [d] \<and> has_content (getCell sh r c) \<and>
        cellData_of r c (getCell sh r c) = Inr d)"
  by (auto simp: emit_def split: sum.splits)

lemma emit_pos: "d \<in> set (emit sh r c) \<Longrightarrow> pos d = (r + 1, c + 1)"
  using emit_cases[of sh r c] cellData_of_props(1) by fastforce

lemma set_emit_row:
  "d \<in> set (emit_row sh r) \<longleftrightarrow> (\<exists>c < columnCount sh. d \<in> set (emit sh r c))"
  by (auto simp: emit_row_def)

lemma sorted_wrt_concat_upt:
  assumes "\<And>i. sorted_wrt P (f i)"
      and "\<And>i j x y. i < j \<Longrightarrow> x \<in> set (f i) \<Longrightarrow> y \<in> set (f j) \<Longrightarrow> P x y"
  shows "sorted_wrt P (concat (map f [0..<n]))"
proof (induction n)
  case 0
  show ?case by simp
next
  case (Suc n)
  have "\<forall>x \<in> set (concat (map f [0..<n])). \<forall>y \<in> set (f n). P x y"
    using assms(2) by auto
  with Suc assms(1)[of n] show ?case
    by (simp add: sorted_wrt_append)
qed

lemma sorted_emit: "sorted_wrt (\<lambda>a b. pos_less (pos a) (pos b)) (emit sh r c)"
  using emit_cases[of sh r c] by auto

lemma sorted_emit_row: "sorted_wrt (\<lambda>a b. pos_less (pos a) (pos b)) (emit_row sh r)"
  unfolding emit_row_def
proof (rule sorted_wrt_concat_upt)
  show "sorted_wrt (\<lambda>a b. pos_less (pos a) (pos b)) (emit sh r i)" for i
    by (rule sorted_emit)
  show "pos_less (pos x) (pos y)"
    if "i < j" "x \<in> set (emit sh r i)" "y \<in> set (emit sh r j)" for i j x y
    using that emit_pos[of x sh r i] emit_pos[of y sh r j] by (simp add: pos_less_def)
qed

lemma emit_row_pos: "d \<in> set (emit_row sh r) \<Longrightarrow> fst (pos d) = r + 1"
  by (auto simp: set_emit_row dest: emit_pos)

lemma sorted_rows:
  "sorted_wrt (\<lambda>a b. pos_less (pos a) (pos b)) (concat (map (emit_row sh) [0..<n]))"
proof (rule sorted_wrt_concat_upt)
  show "sorted_wrt (\<lambda>a b. pos_less (pos a) (pos b)) (emit_row sh i)" for i
    by (rule sorted_emit_row)
  show "pos_less (pos x) (pos y)"
    if "i < j" "x \<in> set (emit_row sh i)" "y \<in> set (emit_row sh j)" for i j x y
    using that emit_row_pos[of x sh i] emit_row_pos[of y sh j] by (simp add: pos_less_def)
qed

lemma set_rows:
  "d \<in> set (concat (map (emit_row sh) [0..<n])) \<longleftrightarrow>
   (\<exists>r < n. \<exists>c < columnCount sh. d \<in> set (emit sh r c))"
  by (auto simp: set_emit_row)

lemma sorted_wrt_irrefl_distinct:
  assumes "\<And>x. \<not> P x x" "sorted_wrt P xs"
  shows "distinct xs"
  using assms(2) by (induction xs) (auto simp: assms(1))

lemma pos_less_irrefl: "\<not> pos_less p p"
  by (simp add: pos_less_def)

lemma has_content_iff:
  "has_content x \<longleftrightarrow>
     cvalue x \<noteq> JNull \<and> cvalue x \<noteq> JUndefined \<and> cvalue x \<noteq> JStr [] \<and>
     formattedValue x \<noteq> JNull \<and> formattedValue x \<noteq> JUndefined \<and>
     formattedValue x \<noteq> JStr []"
  by (simp add: has_content_def strict_neq_def)

lemma emitted_cell:
  assumes "extractCellData sh = Inr out" "d \<in> set (cells out)"
  shows "\<exists>r c. r < rowCount sh \<and> c < columnCount sh \<and> has_content (getCell sh r c) \<and>
               cellData_of r c (getCell sh r c) = Inr d"
proof -
  from assms(2) extractCellData_cells(1)[OF assms(1)]
  have "d \<in> set (concat (map (emit_row sh) [0..<rowCount sh]))" by simp
  then obtain r c where rc: "r < rowCount sh" "c < columnCount sh" "d \<in> set (emit sh r c)"
    unfolding set_rows by blast
  from rc(3) emit_cases[of sh r c]
  have "has_content (getCell sh r c) \<and> cellData_of r c (getCell sh r c) = Inr d" by auto
  with rc(1,2) show ?thesis by blast
qed

lemma cell_emitted:
  assumes "extractCellData sh = Inr out" "r < rowCount sh" "c < columnCount sh"
      and "has_content (getCell sh r c)"
  shows "\<exists>d \<in> set (cells out). cellData_of r c (getCell sh r c) = Inr d"
proof -
  from extractCellData_cells(2)[OF assms] obtain d where
    d: "cellData_of r c (getCell sh r c) = Inr d" by blast
  with assms(4) have "emit sh r c = [d]" by (simp add: emit_def)
  with assms(2,3) have "d \<in> set (concat (map (emit_row sh) [0..<rowCount sh]))"
    unfolding set_rows by force
  with extractCellData_cells(1)[OF assms(1)] d show ?thesis by auto
qed

lemma display_grid_iff:
  "display_grid sh \<longleftrightarrow>
     (\<forall>r c. r < rowCount sh \<and> c < columnCount sh \<longrightarrow>
            display_value (formattedValue (getCell sh r c)))"
  by (auto simp: display_grid_def list_all_iff)

text \<open>
  C1. For every grid whose formatted values are display strings or absent, the
  extraction returns a list, and the cell at zero-based \<open>(r, c)\<close> within the declared
  bounds appears in it (a record with its position and raw value) if and only if its
  raw value and its formatted value are each neither \<open>null\<close>, \<open>undefined\<close> nor the
  empty string.
\<close>

theorem cell_visibility:
  assumes "display_grid sh"
  shows "\<exists>out. extractCellData sh = Inr out \<and>
           (\<forall>r c. r < rowCount sh \<and> c < columnCount sh \<longrightarrow>
              ((\<exists>d \<in> set (cells out). pos d = (r + 1, c + 1) \<and> val d = cvalue (getCell sh r c)) \<longleftrightarrow>
               (cvalue (getCell sh r c) \<noteq> JNull \<and> cvalue (getCell sh r c) \<noteq> JUndefined \<and>
                cvalue (getCell sh r c) \<noteq> JStr [] \<and>
                formattedValue (getCell sh r c) \<noteq> JNull \<and>
                formattedValue (getCell sh r c) \<noteq> JUndefined \<and>
                formattedValue (getCell sh r c) \<noteq> JStr [])))"
proof -
  from assms extractCellData_returns[of sh] obtain out where
    out: "extractCellData sh = Inr out"
    unfolding display_grid_iff by blast
  have "(\<exists>d \<in> set (cells out). pos d = (r + 1, c + 1) \<and> val d = cvalue (getCell sh r c)) \<longleftrightarrow>
        has_content (getCell sh r c)"
    if rc: "r < rowCount sh" "c < columnCount sh" for r c
  proof
    assume "\<exists>d \<in> set (cells out). pos d = (r + 1, c + 1) \<and> val d = cvalue (getCell sh r c)"
    then obtain d where d: "d \<in> set (cells out)" "pos d = (r + 1, c + 1)" by blast
    from emitted_cell[OF out d(1)] obtain r' c' where
      e: "has_content (getCell sh r' c')" "cellData_of r' c' (getCell sh r' c') = Inr d"
      by blast
    from cellData_of_props(1)[OF e(2)] d(2) have "r' = r" "c' = c" by simp_all
    with e(1) show "has_content (getCell sh r c)" by simp
  next
    assume "has_content (getCell sh r c)"
    from cell_emitted[OF out rc this] obtain d where
      d: "d \<in> set (cells out)" "cellData_of r c (getCell sh r c) = Inr d" by blast
    from cellData_of_props(1,2)[OF d(2)] d(1)
    show "\<exists>d \<in> set (cells out). pos d = (r + 1, c + 1) \<and> val d = cvalue (getCell sh r c)"
      by blast
  qed
  with out show ?thesis unfolding has_content_iff by blast
qed

lemma ex_sheet_extracted: "extractCellData ex_sheet = Inr ex_extracted"
  by code_simp

theorem cell_visibility_witness:
  "display_grid ex_sheet \<and> extractCellData ex_sheet = Inr ex_extracted \<and>
   0 < rowCount ex_sheet \<and> 1 < rowCount ex_sheet \<and>
   1 < columnCount ex_sheet \<and> 2 < columnCount ex_sheet \<and>
   getCell ex_sheet 0 2 = ex_cell JNull (JStr ''x'') \<and>
   \<not> (\<exists>d \<in> set (cells ex_extracted). pos d = (1, 3) \<and> val d = JNull) \<and>
   getCell ex_sheet 1 1 = ex_cell (JNum 0) (JStr []) \<and>
   \<not> (\<exists>d \<in> set (cells ex_extracted). pos d = (2, 2) \<and> val d = JNum 0) \<and>
   getCell ex_sheet 0 1 = ex_cell (JNum 5) (JStr ''5.00'') \<and>
   (\<exists>d \<in> set (cells ex_extracted). pos d = (1, 2) \<and> val d = JNum 5)"
proof -
  have g: "display_grid ex_sheet" by code_simp
  have b: "0 < rowCount ex_sheet" "1 < rowCount ex_sheet"
          "1 < columnCount ex_sheet" "2 < columnCount ex_sheet"
    by (simp_all add: ex_sheet_def)
  have v: "getCell ex_sheet 0 2 = ex_cell JNull (JStr ''x'')"
          "getCell ex_sheet 1 1 = ex_cell (JNum 0) (JStr [])"
          "getCell ex_sheet 0 1 = ex_cell (JNum 5) (JStr ''5.00'')"
    by (simp_all add: ex_sheet_def ex_grid_def)
  from cell_visibility[OF g] ex_sheet_extracted have
    vis: "\<And>r c. r < rowCount ex_sheet \<Longrightarrow> c < columnCount ex_sheet \<Longrightarrow>
      ((\<exists>d \<in> set (cells ex_extracted). pos d = (r + 1, c + 1) \<and>
           val d = cvalue (getCell ex_sheet r c)) \<longleftrightarrow>
       (cvalue (getCell ex_sheet r c) \<noteq> JNull \<and> cvalue (getCell ex_sheet r c) \<noteq> JUndefined \<and>
        cvalue (getCell ex_sheet r c) \<noteq> JStr [] \<and>
        formattedValue (getCell ex_sheet r c) \<noteq> JNull \<and>
        formattedValue (getCell ex_sheet r c) \<noteq> JUndefined \<and>
        formattedValue (getCell ex_sheet r c) \<noteq> JStr []))"
    by auto
  have n1: "\<not> (\<exists>d \<in> set (cells ex_extracted). pos d = (1, 3) \<and> val d = JNull)"
    using vis[OF b(1) b(4)] v(1) by (simp add: ex_cell_def eval_nat_numeral)
  have n2: "\<not> (\<exists>d \<in> set (cells ex_extracted). pos d = (2, 2) \<and> val d = JNum 0)"
    using vis[OF b(2) b(3)] v(2) by (simp add: ex_cell_def eval_nat_numeral)
  have p: "\<exists>d \<in> set (cells ex_extracted). pos d = (1, 2) \<and> val d = JNum 5"
    using vis[OF b(1) b(3)] v(3) by (simp add: ex_cell_def eval_nat_numeral)
  show ?thesis
    using g ex_sheet_extracted b v n1 n2 p by blast
qed

text \<open>
  C6. In the list of a grid whose extraction returns, positions increase strictly in
  row-major order (an earlier record has a smaller row, or the same row and a smaller
  column), so no position occurs twice; and every record carries the position of a cell
  within the declared bounds, its zero-based coordinates plus one, with that cell's raw
  value.
\<close>

theorem row_major_order:
  assumes "extractCellData sh = Inr out"
  shows "sorted_wrt pos_less (map pos (cells out)) \<and>
         distinct (map pos (cells out)) \<and>
         (\<forall>d \<in> set (cells out). \<exists>r c. r < rowCount sh \<and> c < columnCount sh \<and>
              pos d = (r + 1, c + 1) \<and> val d = cvalue (getCell sh r c))"
proof -
  have s: "sorted_wrt pos_less (map pos (cells out))"
    using sorted_rows[of sh "rowCount sh"] extractCellData_cells(1)[OF assms]
    by (simp add: sorted_wrt_map)
  have "distinct (map pos (cells out))"
    using s by (rule sorted_wrt_irrefl_distinct[rotated]) (rule pos_less_irrefl)
  moreover have "\<exists>r c. r < rowCount sh \<and> c < columnCount sh \<and>
              pos d = (r + 1, c + 1) \<and> val d = cvalue (getCell sh r c)"
    if "d \<in> set (cells out)" for d
  proof -
    from emitted_cell[OF assms that] obtain r c where
      rc: "r < rowCount sh" "c < columnCount sh" "cellData_of r c (getCell sh r c) = Inr d"
      by blast
    with cellData_of_props(1,2)[OF rc(3)] show ?thesis by blast
  qed
  ultimately show ?thesis using s by blast
qed

theorem row_major_order_witness:
  "extractCellData ex_sheet = Inr ex_extracted \<and>
   map pos (cells ex_extracted) = [(1, 1), (1, 2), (2, 1), (2, 3)] \<and>
   sorted_wrt pos_less [(1, 1), (1, 2), (2, 1), (2, 3)] \<and>
   distinct [(1::nat, 1::nat), (1, 2), (2, 1), (2, 3)]"
proof -
  have m: "map pos (cells ex_extracted) = [(1, 1), (1, 2), (2, 1), (2, 3)]"
    by (simp add: ex_extracted_def)
  show ?thesis
    using row_major_order[OF ex_sheet_extracted] ex_sheet_extracted m by simp
qed

text \<open>
  C3 as stated fails: the first cell of the example sheet has the number 5 as raw value
  and \<open>5\<close>, the string form of 5, as formatted value, and its record carries \<open>fmt\<close>.
\<close>

theorem formatted_value_omission_counterexample:
  "cvalue (getCell ex_sheet 0 0) = JNum 5 \<and>
   formattedValue (getCell ex_sheet 0 0) = JStr (string_form (JNum 5)) \<and>
   extractCellData ex_sheet = Inr ex_extracted \<and>
   cells ex_extracted ! 0 =
     \<lparr>pos = (1, 1), val = JNum 5, type = ''number'', fmt = Some (JStr ''5''),
      hyperlink_out = None\<rparr>"
  by code_simp

text \<open>
  C3, amended. Every record of the list belongs to a cell within the bounds, and it
  carries \<open>fmt\<close> (then the cell's formatted value) if and only if that formatted value
  is truthy and not strictly equal to the raw value. A formatted value that is a string
  is therefore dropped only for a raw value that is the same string, and kept for every
  number, equal in its string form or not.
\<close>

theorem formatted_value_omission:
  assumes "extractCellData sh = Inr out" "d \<in> set (cells out)"
  shows "\<exists>r c. r < rowCount sh \<and> c < columnCount sh \<and> pos d = (r + 1, c + 1) \<and>
           fmt d = (if truthy (formattedValue (getCell sh r c)) \<and>
                       formattedValue (getCell sh r c) \<noteq> cvalue (getCell sh r c)
                    then Some (formattedValue (getCell sh r c)) else None) \<and>
           (\<forall>s. formattedValue (getCell sh r c) = JStr s \<longrightarrow>
                fmt d = (if cvalue (getCell sh r c) = JStr s then None else Some (JStr s)))"
proof -
  from emitted_cell[OF assms] obtain r c where
    rc: "r < rowCount sh" "c < columnCount sh" "has_content (getCell sh r c)"
        "cellData_of r c (getCell sh r c) = Inr d"
    by blast
  note p = cellData_of_props(1,4)[OF rc(4)]
  have "fmt d = (if cvalue (getCell sh r c) = JStr s then None else Some (JStr s))"
    if "formattedValue (getCell sh r c) = JStr s" for s
    using that rc(3) p(2) by (auto simp: has_content_iff)
  with rc(1,2) p show ?thesis by blast
qed

theorem formatted_value_omission_witness:
  "extractCellData ex_sheet = Inr ex_extracted \<and>
   map (\<lambda>d. (pos d, val d, fmt d)) (cells ex_extracted) =
     [((1, 1), JNum 5, Some (JStr ''5'')),
      ((1, 2), JNum 5, Some (JStr ''5.00'')),
      ((2, 1), JStr ''5'', None),
      ((2, 3), JStr ''hello'', None)] \<and>
   (\<exists>r c. r < rowCount ex_sheet \<and> c < columnCount ex_sheet \<and>
      pos (cells ex_extracted ! 2) = (r + 1, c + 1) \<and>
      fmt (cells ex_extracted ! 2) =
        (if truthy (formattedValue (getCell ex_sheet r c)) \<and>
            formattedValue (getCell ex_sheet r c) \<noteq> cvalue (getCell ex_sheet r c)
         then Some (formattedValue (getCell ex_sheet r c)) else None))"
proof -
  have m: "map (\<lambda>d. (pos d, val d, fmt d)) (cells ex_extracted) =
     [((1, 1), JNum 5, Some (JStr ''5'')),
      ((1, 2), JNum 5, Some (JStr ''5.00'')),
      ((2, 1), JStr ''5'', None),
      ((2, 3), JStr ''hello'', None)]"
    by (simp add: ex_extracted_def)
  have i: "cells ex_extracted ! 2 \<in> set (cells ex_extracted)"
    by (simp add: ex_extracted_def)
  from formatted_value_omission[OF ex_sheet_extracted i]
  have "\<exists>r c. r < rowCount ex_sheet \<and> c < columnCount ex_sheet \<and>
      pos (cells ex_extracted ! 2) = (r + 1, c + 1) \<and>
      fmt (cells ex_extracted ! 2) =
        (if truthy (formattedValue (getCell ex_sheet r c)) \<and>
            formattedValue (getCell ex_sheet r c) \<noteq> cvalue (getCell ex_sheet r c)
         then Some (formattedValue (getCell ex_sheet r c)) else None)"
    by blast
  with ex_sheet_extracted m show ?thesis by blast
qed

subsection \<open>Identifier resolution\<close>

lemma rmatch_idclass:
  "rmatch idclass (c # t, g) = (if idchar c then [(t, g)] else [])"
  by (auto simp: idclass_def idchar_def in_range_def)

lemma rmatch_idclass_Nil: "rmatch idclass ([], g) = []"
  by (simp add: idclass_def)

lemma ex1: "list_all idchar ''1BxiMVs0XRA5nFMdKvBdBZjgmUUqptlbs74OgvE2upms''"
  by (simp add: idchar_def in_range_def)

lemma ex2: "\<not> idchar CHR ''/''"
  by (simp add: idchar_def in_range_def)

lemma plus_idclass_Nil: "rmatch (Plus idclass) ([], g) = []"
  by (simp add: rmatch.simps(6) rmatch_idclass_Nil)

lemma plus_idclass_Cons:
  "rmatch (Plus idclass) (c # t, g) =
     (if idchar c then rmatch (Plus idclass) (t, g) @ [(t, g)] else [])"
  by (subst rmatch.simps(6)) (simp add: rmatch_idclass)

lemma plus_idclass_head:
  "(case rmatch (Plus idclass) (s, g) of [] \<Rightarrow> None | st # _ \<Rightarrow> Some st) =
     (if takeWhile idchar s = [] then None else Some (dropWhile idchar s, g))"
proof (induction s)
  case Nil
  show ?case by (simp add: plus_idclass_Nil)
next
  case (Cons c t)
  show ?case
  proof (cases "idchar c")
    case True
    show ?thesis
    proof (cases "rmatch (Plus idclass) (t, g)")
      case Nil
      with Cons have "takeWhile idchar t = []" by (simp split: if_splits)
      then have "dropWhile idchar t = t"
        by (metis append_Nil takeWhile_dropWhile_id)
      with True Nil show ?thesis by (simp add: plus_idclass_Cons)
    next
      case (Cons st sts)
      with Cons.IH have "st = (dropWhile idchar t, g)" by (simp split: if_splits)
      with True Cons show ?thesis by (simp add: plus_idclass_Cons)
    qed
  next
    case False
    then show ?thesis by (simp add: plus_idclass_Cons)
  qed
qed

lemma take_takeWhile_length:
  "take (length s - length (dropWhile p s)) s = takeWhile p s"
proof -
  have "length s = length (takeWhile p s) + length (dropWhile p s)"
    by (metis length_append takeWhile_dropWhile_id)
  then have "length s - length (dropWhile p s) = length (takeWhile p s)" by simp
  then show ?thesis by (simp add: takeWhile_eq_take[symmetric])
qed

lemma grp_plus_head:
  "(case rmatch (Grp (Plus idclass)) (s, g) of [] \<Rightarrow> None | st # _ \<Rightarrow> Some st) =
     (if takeWhile idchar s = [] then None
      else Some (dropWhile idchar s, Some (takeWhile idchar s)))"
proof (cases "rmatch (Plus idclass) (s, g)")
  case Nil
  with plus_idclass_head[of s g] have "takeWhile idchar s = []"
    by (simp split: if_splits)
  with Nil show ?thesis by simp
next
  case (Cons st sts)
  with plus_idclass_head[of s g]
  have "takeWhile idchar s \<noteq> []" "st = (dropWhile idchar s, g)"
    by (simp_all split: if_splits)
  with Cons show ?thesis
    by (simp add: take_takeWhile_length)
qed

lemma rmatch_id_pattern_unfold:
  "rmatch (id_pattern L) (s, None) =
     (if take (length L) s = L then rmatch (Grp (Plus idclass)) (drop (length L) s, None)
      else [])"
  by (simp add: id_pattern_def rmatch_lit del: rmatch.simps(7))

lemma rmatch_id_pattern:
  "(case rmatch (id_pattern L) (s, None) of [] \<Rightarrow> None | st # _ \<Rightarrow> Some st) = capture_at L s"
  unfolding rmatch_id_pattern_unfold capture_at_def
  using grp_plus_head[of "drop (length L) s" None] by simp

lemma rx_exec_id_pattern_Nil: "rx_exec (id_pattern L) [] = capture_at L []"
  by (simp add: rx_exec.simps rmatch_id_pattern)

lemma rx_exec_id_pattern_Cons:
  "rx_exec (id_pattern L) (c # t) =
     (case capture_at L (c # t) of None \<Rightarrow> rx_exec (id_pattern L) t | Some st \<Rightarrow> Some st)"
proof (cases "rmatch (id_pattern L) (c # t, None)")
  case Nil
  with rmatch_id_pattern[of L "c # t"] have "capture_at L (c # t) = None" by simp
  with Nil show ?thesis by (simp add: rx_exec.simps)
next
  case (Cons st sts)
  with rmatch_id_pattern[of L "c # t"] have "capture_at L (c # t) = Some st" by simp
  with Cons show ?thesis by (simp add: rx_exec.simps)
qed

lemma exec_not_included:
  "\<not> str_includes s L \<Longrightarrow> rx_exec (id_pattern L) s = None"
proof (induction s)
  case Nil
  then show ?case by (simp add: rx_exec_id_pattern_Nil capture_at_def)
next
  case (Cons c t)
  then show ?case by (simp add: rx_exec_id_pattern_Cons capture_at_def)
qed

lemma capture_here:
  assumes "X \<noteq> []" "list_all idchar X" "case rest of [] \<Rightarrow> True | c # _ \<Rightarrow> \<not> idchar c"
  shows "capture_at L (L @ X @ rest) = Some (rest, Some X)"
proof -
  have r: "takeWhile idchar rest = []" "dropWhile idchar rest = rest"
    using assms(3) by (cases rest; simp)+
  have "takeWhile idchar (X @ rest) = X" "dropWhile idchar (X @ rest) = rest"
    using assms(2) r by (simp_all add: list_all_iff)
  with assms(1) show ?thesis by (simp add: capture_at_def)
qed

lemma exec_found:
  assumes "L \<noteq> []" "X \<noteq> []" "list_all idchar X"
      and "case rest of [] \<Rightarrow> True | c # _ \<Rightarrow> \<not> idchar c"
  shows "\<not> str_includes (pre @ butlast L) L \<Longrightarrow>
         rx_exec (id_pattern L) (pre @ L @ X @ rest) = Some (rest, Some X)"
proof (induction pre)
  case Nil
  from assms(1) obtain c t where "L = c # t" by (cases L) auto
  then show ?case
    using capture_here[OF assms(2,3,4), of L]
    by (simp add: rx_exec_id_pattern_Cons)
next
  case (Cons c p)
  from Cons.prems have
    n: "take (length L) (c # p @ butlast L) \<noteq> L" and
    i: "\<not> str_includes (p @ butlast L) L"
    by simp_all
  have le: "length L \<le> length (c # p @ butlast L)" by simp
  have "c # p @ L @ X @ rest = (c # p @ butlast L) @ (last L # X @ rest)"
    using assms(1) by simp
  then have "take (length L) (c # p @ L @ X @ rest) = take (length L) (c # p @ butlast L)"
    using le by (metis append_Nil2 diff_is_0_eq take_0 take_append)
  with n have "capture_at L (c # p @ L @ X @ rest) = None"
    by (simp add: capture_at_def)
  with Cons.IH[OF i] show ?case
    by (simp add: rx_exec_id_pattern_Cons)
qed

lemma patterns_id:
  "patterns = [id_pattern ''/spreadsheets/d/'', id_pattern ''/d/'', id_pattern ''id='']"
  by (simp add: patterns_def id_pattern_def)

lemma first_capture_hit:
  "rx_exec p url = Some (r, Some X) \<Longrightarrow> X \<noteq> [] \<Longrightarrow> first_capture (p # ps) url = Some X"
  by simp

lemma first_capture_skip:
  "rx_exec p url = None \<Longrightarrow> first_capture (p # ps) url = first_capture ps url"
  by simp

lemma embeds_found:
  assumes "embeds higher L pre X rest" "L \<noteq> []"
  shows "rx_exec (id_pattern L) (pre @ L @ X @ rest) = Some (rest, Some X)"
  using assms exec_found[of L X rest pre] by (simp add: embeds_def)

lemma extract_Some:
  "first_capture patterns url = Some X \<Longrightarrow> extractSheetIdFromUrl url = (Inr X, [])"
  by (simp add: extractSheetIdFromUrl_def extractSheetIdFromUrl_body_def)

text \<open>
  C4. For a URL of one of the three shapes that embeds an identifier \<open>X\<close> over
  \<open>[A-Za-z0-9_-]\<close>, \<open>extractSheetIdFromUrl\<close> returns exactly \<open>X\<close>. The patterns are tried
  in their fixed order and the first match wins: a URL of the first shape gives its
  identifier whatever else it contains, one of the second shape when the literal of the
  first does not occur, and one of the third when neither of the other two literals
  occurs.
\<close>

theorem identifier_round_trip:
  "(embeds [] ''/spreadsheets/d/'' pre X rest \<longrightarrow>
      extractSheetIdFromUrl (pre @ ''/spreadsheets/d/'' @ X @ rest) = (Inr X, [])) \<and>
   (embeds [''/spreadsheets/d/''] ''/d/'' pre X rest \<longrightarrow>
      extractSheetIdFromUrl (pre @ ''/d/'' @ X @ rest) = (Inr X, [])) \<and>
   (embeds [''/spreadsheets/d/'', ''/d/''] ''id='' pre X rest \<longrightarrow>
      extractSheetIdFromUrl (pre @ ''id='' @ X @ rest) = (Inr X, []))"
proof (intro conjI impI)
  assume e: "embeds [] ''/spreadsheets/d/'' pre X rest"
  then have x: "X \<noteq> []" by (simp add: embeds_def)
  have "rx_exec (id_pattern ''/spreadsheets/d/'') (pre @ ''/spreadsheets/d/'' @ X @ rest)
          = Some (rest, Some X)"
    using embeds_found[OF e] by simp
  then have "first_capture patterns (pre @ ''/spreadsheets/d/'' @ X @ rest) = Some X"
    unfolding patterns_id using x by (rule first_capture_hit)
  then show "extractSheetIdFromUrl (pre @ ''/spreadsheets/d/'' @ X @ rest) = (Inr X, [])"
    by (rule extract_Some)
next
  let ?url = "pre @ ''/d/'' @ X @ rest"
  assume e: "embeds [''/spreadsheets/d/''] ''/d/'' pre X rest"
  then have x: "X \<noteq> []" and n1: "\<not> str_includes ?url ''/spreadsheets/d/''"
    by (simp_all add: embeds_def)
  have s1: "rx_exec (id_pattern ''/spreadsheets/d/'') ?url = None"
    using n1 by (rule exec_not_included)
  have "rx_exec (id_pattern ''/d/'') ?url = Some (rest, Some X)"
    using embeds_found[OF e] by simp
  then have "first_capture [id_pattern ''/d/'', id_pattern ''id=''] ?url = Some X"
    using x by (rule first_capture_hit)
  then have "first_capture patterns ?url = Some X"
    unfolding patterns_id using first_capture_skip[OF s1] by simp
  then show "extractSheetIdFromUrl ?url = (Inr X, [])"
    by (rule extract_Some)
next
  let ?url = "pre @ ''id='' @ X @ rest"
  assume e: "embeds [''/spreadsheets/d/'', ''/d/''] ''id='' pre X rest"
  then have x: "X \<noteq> []" and n1: "\<not> str_includes ?url ''/spreadsheets/d/''"
    and n2: "\<not> str_includes ?url ''/d/''"
    by (simp_all add: embeds_def)
  have s1: "rx_exec (id_pattern ''/spreadsheets/d/'') ?url = None"
    using n1 by (rule exec_not_included)
  have s2: "rx_exec (id_pattern ''/d/'') ?url = None"
    using n2 by (rule exec_not_included)
  have "rx_exec (id_pattern ''id='') ?url = Some (rest, Some X)"
    using embeds_found[OF e] by simp
  then have "first_capture [id_pattern ''id=''] ?url = Some X"
    using x by (rule first_capture_hit)
  then have "first_capture patterns ?url = Some X"
    unfolding patterns_id using first_capture_skip[OF s1] first_capture_skip[OF s2] by simp
  then show "extractSheetIdFromUrl ?url = (Inr X, [])"
    by (rule extract_Some)
qed

lemma ex_embeds1:
  "embeds [] ''/spreadsheets/d/'' ''https://docs.google.com''
     ''1BxiMVs0XRA5nFMdKvBdBZjgmUUqptlbs74OgvE2upms'' ''/edit#gid=0''"
  by (simp add: embeds_def idchar_def in_range_def)

lemma ex_embeds2:
  "embeds [''/spreadsheets/d/''] ''/d/'' ''https://drive.google.com/file'' ''abc_-9'' ''/view''"
  by (simp add: embeds_def idchar_def in_range_def)

lemma ex_embeds3:
  "embeds [''/spreadsheets/d/'', ''/d/''] ''id='' ''https://drive.google.com/open?'' ''abc_-9''
     ''&usp=sharing''"
  by (simp add: embeds_def idchar_def in_range_def)

theorem identifier_round_trip_witness:
  "embeds [] ''/spreadsheets/d/'' ''https://docs.google.com''
     ''1BxiMVs0XRA5nFMdKvBdBZjgmUUqptlbs74OgvE2upms'' ''/edit#gid=0'' \<and>
   extractSheetIdFromUrl
     ''https://docs.google.com/spreadsheets/d/1BxiMVs0XRA5nFMdKvBdBZjgmUUqptlbs74OgvE2upms/edit#gid=0''
     = (Inr ''1BxiMVs0XRA5nFMdKvBdBZjgmUUqptlbs74OgvE2upms'', []) \<and>
   embeds [''/spreadsheets/d/''] ''/d/'' ''https://drive.google.com/file'' ''abc_-9'' ''/view'' \<and>
   extractSheetIdFromUrl ''https://drive.google.com/file/d/abc_-9/view'' = (Inr ''abc_-9'', []) \<and>
   embeds [''/spreadsheets/d/'', ''/d/''] ''id='' ''https://drive.google.com/open?'' ''abc_-9''
     ''&usp=sharing'' \<and>
   extractSheetIdFromUrl ''https://drive.google.com/open?id=abc_-9&usp=sharing''
     = (Inr ''abc_-9'', [])"
  using identifier_round_trip[of "''https://docs.google.com''"
          "''1BxiMVs0XRA5nFMdKvBdBZjgmUUqptlbs74OgvE2upms''" "''/edit#gid=0''"]
        identifier_round_trip[of "''https://drive.google.com/file''" "''abc_-9''" "''/view''"]
        identifier_round_trip[of "''https://drive.google.com/open?''" "''abc_-9''"
          "''&usp=sharing''"]
        ex_embeds1 ex_embeds2 ex_embeds3
  by simp

text \<open>The order of the patterns decides when a URL has more than one of the shapes.\<close>

lemma priority_examples:
  "extractSheetIdFromUrl ''https://docs.google.com/spreadsheets/d/abc/edit?id=xyz''
     = (Inr ''abc'', []) \<and>
   extractSheetIdFromUrl ''https://drive.google.com/file/d/abc/view?id=xyz'' = (Inr ''abc'', []) \<and>
   extractSheetIdFromUrl ''https://x.y/d/abc/spreadsheets/d/XYZ'' = (Inr ''XYZ'', [])"
  by code_simp

end
